theory Spec2Isabelle
  imports Complex_Main "HOL-Library.Word" "HOL-Library.Sublist"
begin

unbundle bit_operations_syntax

section \<open>Exceptions\<close>

text \<open>
  The exceptions the modelled code raises, as values: the subclasses of \<open>Exception\<close>
  that occur, and \<open>OtherError\<close> for any other one. A function that can raise returns
  \<open>exc + 'a\<close>, with \<open>Inl\<close> for the raised exception. \<open>asyncio.CancelledError\<close> is not
  among them: it derives from \<open>BaseException\<close>, an \<open>except Exception\<close> clause does not
  catch it, and it reaches a task only where the task awaits.
\<close>

datatype exc =
    TryFlagFailed
  | ValueError
  | BotConnectFailed
  | BotBaseUtilsError
  | ConnectionClosed
  | AttributeError
  | InvalidStateError
  | OtherError string

section \<open>melobot/types/models.py: Flagable\<close>

text \<open>
  A stored flag value is any Python object. Two objects matter to the code by identity:
  \<open>None\<close> and the sentinel \<open>Void\<close> that \<open>flags.get(flag_name, Void)\<close> uses as its default;
  every other object is \<open>PyObj\<close>.
\<close>

datatype 'a pyval = PyNone | Void | PyObj 'a

text \<open>
  \<open>_flags_store\<close> is \<open>None\<close> after \<open>__init__\<close> and a dict of dicts after the first \<open>mark\<close>.
\<close>

type_synonym 'a flags_store = "(string \<rightharpoonup> (string \<rightharpoonup> 'a pyval)) option"

definition Flagable_init :: "'a flags_store" where
  "Flagable_init = None"

text \<open>
  \<open>mark\<close>: the store and the namespace are created when missing; a flag that is already
  a key of the namespace raises \<open>TryFlagFailed\<close>, otherwise the value is stored.
  The raise can only happen when neither the store nor the namespace had to be created, so
  the object is unchanged when \<open>mark\<close> raises.
\<close>

definition mark :: "'a flags_store \<Rightarrow> string \<Rightarrow> string \<Rightarrow> 'a pyval \<Rightarrow> exc + 'a flags_store" where
  "mark fs namespace flag_name val =
     (let store1 = (case fs of None \<Rightarrow> Map.empty | Some m \<Rightarrow> m);
          store2 = (case store1 namespace of
                      None \<Rightarrow> store1(namespace \<mapsto> Map.empty)
                    | Some _ \<Rightarrow> store1);
          flags = (case store2 namespace of None \<Rightarrow> Map.empty | Some f \<Rightarrow> f)
      in if flags flag_name \<noteq> None then Inl TryFlagFailed
         else Inr (Some (store2(namespace \<mapsto> flags(flag_name \<mapsto> val)))))"

text \<open>
  \<open>flag_check\<close>: the last line is \<open>flag is val if val is None else flag == val\<close>. For
  a \<open>val\<close> other than \<open>None\<close> the comparison \<open>==\<close> is taken as equality of the two
  values, as it is for plain data; a stored object with an \<open>__eq__\<close> of its own is not
  covered.
\<close>

definition flag_check :: "'a flags_store \<Rightarrow> string \<Rightarrow> string \<Rightarrow> 'a pyval \<Rightarrow> bool" where
  "flag_check fs namespace flag_name val =
     (case fs of
        None \<Rightarrow> False
      | Some store \<Rightarrow>
          (case store namespace of
             None \<Rightarrow> False
           | Some flags \<Rightarrow>
               (let flag = (case flags flag_name of None \<Rightarrow> Void | Some v \<Rightarrow> v)
                in if flag = Void then False
                   else if val = PyNone then flag = PyNone
                   else flag = val)))"

section \<open>melobot/types/tools.py: AsyncTwinEvent\<close>

text \<open>
  Two events refer to each other, so the events live in a store: an address is a natural
  number, and an event holds the flag of \<open>asyncio.Event\<close> and the address of its twin.
\<close>

record twin_event =
  is_set :: bool
  twin :: "nat option"

type_synonym event_store = "nat \<Rightarrow> twin_event"

definition new_event :: twin_event where
  "new_event = \<lparr>is_set = False, twin = None\<rparr>"

text \<open>\<open>asyncio.Event.set\<close> and \<open>asyncio.Event.clear\<close>, which \<open>super()\<close> reaches.\<close>

definition base_set :: "event_store \<Rightarrow> nat \<Rightarrow> event_store" where
  "base_set h a = h(a := (h a)\<lparr>is_set := True\<rparr>)"

definition base_clear :: "event_store \<Rightarrow> nat \<Rightarrow> event_store" where
  "base_clear h a = h(a := (h a)\<lparr>is_set := False\<rparr>)"

definition bind :: "event_store \<Rightarrow> nat \<Rightarrow> nat \<Rightarrow> event_store" where
  "bind h a t =
     (let h1 = h(a := (h a)\<lparr>twin := Some t\<rparr>)
      in if is_set (h1 a) then base_clear h1 t else base_set h1 t)"

definition event_set :: "event_store \<Rightarrow> nat \<Rightarrow> event_store" where
  "event_set h a =
     (let h1 = base_set h a
      in case twin (h1 a) of None \<Rightarrow> h1 | Some t \<Rightarrow> base_clear h1 t)"

definition event_clear :: "event_store \<Rightarrow> nat \<Rightarrow> event_store" where
  "event_clear h a =
     (let h1 = base_clear h a
      in case twin (h1 a) of None \<Rightarrow> h1 | Some t \<Rightarrow> base_set h1 t)"

text \<open>
  \<open>get_twin_event\<close> creates two events (here at the addresses 0 and 1), binds each to the
  other and returns both.
\<close>

definition get_twin_event :: "event_store \<times> nat \<times> nat" where
  "get_twin_event =
     (let h0 = (\<lambda>_. new_event);
          a = 0;
          b = 1;
          h1 = bind h0 a b;
          h2 = bind h1 b a
      in (h2, a, b))"

text \<open>A call on one of the events, and a finite sequence of such calls.\<close>

datatype event_call = CallSet nat | CallClear nat

fun target :: "event_call \<Rightarrow> nat" where
  "target (CallSet a) = a"
| "target (CallClear a) = a"

fun do_call :: "event_store \<Rightarrow> event_call \<Rightarrow> event_store" where
  "do_call h (CallSet a) = event_set h a"
| "do_call h (CallClear a) = event_clear h a"

fun do_calls :: "event_store \<Rightarrow> event_call list \<Rightarrow> event_store" where
  "do_calls h [] = h"
| "do_calls h (c # cs) = do_calls (do_call h c) cs"

text \<open>
  The invariant of a bound pair at the addresses 0 and 1: each is the twin of the other,
  and their flags differ.
\<close>

definition paired :: "event_store \<Rightarrow> bool" where
  "paired h = (twin (h 0) = Some 1 \<and> twin (h 1) = Some 0 \<and> is_set (h 0) \<noteq> is_set (h 1))"

section \<open>melobot/types/tools.py: IdWorker\<close>

text \<open>
  Python integers are unbounded, so every field is an \<open>int\<close>; the shifts and masks are
  the bit operations on \<open>int\<close>.
\<close>

record id_worker =
  worker_id :: int
  datacenter_id :: int
  sequence :: int
  last_timestamp :: int

text \<open>The constants that \<open>__init__\<close> sets, with the expressions of the source.\<close>

definition MAX_WORKER_ID :: int where
  "MAX_WORKER_ID = (-1) XOR (push_bit (3::nat) (-1))"

definition MAX_DATACENTER_ID :: int where
  "MAX_DATACENTER_ID = (-1) XOR (push_bit (5::nat) (-1))"

definition WOKER_ID_SHIFT :: nat where
  "WOKER_ID_SHIFT = 12"

definition DATACENTER_ID_SHIFT :: nat where
  "DATACENTER_ID_SHIFT = 12 + 3"

definition TIMESTAMP_LEFT_SHIFT :: nat where
  "TIMESTAMP_LEFT_SHIFT = 12 + 3 + 5"

definition SEQUENCE_MASK :: int where
  "SEQUENCE_MASK = (-1) XOR (push_bit (12::nat) (-1))"

definition STARTEPOCH :: int where
  "STARTEPOCH = 1064980800000"

text \<open>
  \<open>IdWorker(datacenter_id, worker_id, sequence)\<close>: the range checks of \<open>__init__\<close>, the
  worker id first.
\<close>

definition IdWorker :: "int \<Rightarrow> int \<Rightarrow> int \<Rightarrow> exc + id_worker" where
  "IdWorker dc wid sq =
     (if wid > MAX_WORKER_ID \<or> wid < 0 then Inl ValueError
      else if dc > MAX_DATACENTER_ID \<or> dc < 0 then Inl ValueError
      else Inr \<lparr>worker_id = wid, datacenter_id = dc, sequence = sq, last_timestamp = -1\<rparr>)"

text \<open>
  The clock is the list of the values that the successive calls of \<open>__gen_timestamp\<close>
  return, in milliseconds. \<open>__til_next_millis\<close> reads the clock until a reading is beyond
  \<open>last_timestamp\<close>; when the readings run out first, the loop has not returned: \<open>None\<close>.
\<close>

fun til_next_millis :: "int \<Rightarrow> int list \<Rightarrow> (int \<times> int list) option" where
  "til_next_millis last_ts []  = None"
| "til_next_millis last_ts (timestamp # clock) =
     (if timestamp \<le> last_ts then til_next_millis last_ts clock else Some (timestamp, clock))"

text \<open>The expression assigned to \<open>new_id\<close> in \<open>get_id\<close>.\<close>

definition new_id :: "int \<Rightarrow> id_worker \<Rightarrow> int" where
  "new_id timestamp w =
     push_bit TIMESTAMP_LEFT_SHIFT (timestamp - STARTEPOCH)
     OR push_bit DATACENTER_ID_SHIFT (datacenter_id w)
     OR push_bit WOKER_ID_SHIFT (worker_id w)
     OR sequence w"

text \<open>
  \<open>get_id\<close> returns the id, the worker as the call leaves it, and the rest of the clock.
  A reading before \<open>last_timestamp\<close> raises \<open>ValueError\<close>; \<open>None\<close> means the call is still
  waiting for the clock when the readings end.
\<close>

definition get_id :: "id_worker \<Rightarrow> int list \<Rightarrow> (exc + (int \<times> id_worker \<times> int list)) option" where
  "get_id w clock =
     (case clock of
        [] \<Rightarrow> None
      | timestamp # clock1 \<Rightarrow>
          if timestamp < last_timestamp w then Some (Inl ValueError)
          else
            (let r =
               (if timestamp = last_timestamp w then
                  (let w1 = w\<lparr>sequence := (sequence w + 1) AND SEQUENCE_MASK\<rparr>
                   in if sequence w1 = 0 then
                        (case til_next_millis (last_timestamp w1) clock1 of
                           None \<Rightarrow> None
                         | Some (t, clock2) \<Rightarrow> Some (t, w1, clock2))
                      else Some (timestamp, w1, clock1))
                else Some (timestamp, w\<lparr>sequence := 0\<rparr>, clock1))
             in case r of
                  None \<Rightarrow> None
                | Some (ts, w2, clock3) \<Rightarrow>
                    (let w3 = w2\<lparr>last_timestamp := ts\<rparr>
                     in Some (Inr (new_id ts w3, w3, clock3)))))"

text \<open>\<open>n\<close> successive calls of \<open>get_id\<close> on one worker; an exception ends the sequence.\<close>

fun get_ids :: "nat \<Rightarrow> id_worker \<Rightarrow> int list \<Rightarrow> (exc + (int list \<times> id_worker \<times> int list)) option" where
  "get_ids 0 w clock = Some (Inr ([], w, clock))"
| "get_ids (Suc n) w clock =
     (case get_id w clock of
        None \<Rightarrow> None
      | Some (Inl e) \<Rightarrow> Some (Inl e)
      | Some (Inr (i, w1, clock1)) \<Rightarrow>
          (case get_ids n w1 clock1 of
             None \<Rightarrow> None
           | Some (Inl e) \<Rightarrow> Some (Inl e)
           | Some (Inr (ids, w2, clock2)) \<Rightarrow> Some (Inr (i # ids, w2, clock2))))"


text \<open>
  What the checks of \<open>__init__\<close> establish, and the id written as a sum, for the proofs.
\<close>

definition valid_worker :: "id_worker \<Rightarrow> bool" where
  "valid_worker w =
     (0 \<le> worker_id w \<and> worker_id w \<le> 7 \<and> 0 \<le> datacenter_id w \<and> datacenter_id w \<le> 31)"

definition id_value :: "id_worker \<Rightarrow> int" where
  "id_value w =
     (last_timestamp w - STARTEPOCH) * 2 ^ 20 + datacenter_id w * 2 ^ 15
       + worker_id w * 2 ^ 12 + sequence w"

text \<open>
  A clock that goes on: the readings \<open>clock\<close> still to come are non-decreasing and not
  before the last recorded timestamp, and after them the readings \<open>adv\<close> advance, each one
  beyond all readings before it.
\<close>

definition advancing :: "id_worker \<Rightarrow> int list \<Rightarrow> int list \<Rightarrow> bool" where
  "advancing w clock adv =
     (sorted clock \<and> (\<forall>t\<in>set clock. last_timestamp w \<le> t) \<and> sorted_wrt (<) adv
      \<and> (\<forall>a\<in>set adv. last_timestamp w < a \<and> (\<forall>t\<in>set clock. t < a)))"

section \<open>melobot/io/forward_ws.py: ForwardWsConn\<close>

text \<open>
  Time is a \<open>real\<close>: the floats of \<open>time.time()\<close> and of the delays, with exact arithmetic.
  \<open>_client_close\<close> is an \<open>asyncio.Future\<close>: \<open>done()\<close> holds of a future that has a result
  or was cancelled.
\<close>

datatype future = Pending | Finished | Cancelled

definition future_done :: "future \<Rightarrow> bool" where
  "future_done f = (f \<noteq> Pending)"

text \<open>The log levels, and the lifecycle signals the connector emits on the bot's bus.\<close>

datatype level = DEBUG | INFO | WARNING | ERROR

datatype 'a hook = FIRST_CONNECTED | RECONNECTED | ACTION_PRESEND 'a

text \<open>
  One constructor for each logging call of the class, with the values its message shows.
  \<open>'a\<close> is the type of actions, \<open>'e\<close> the type of events.
\<close>

datatype ('a, 'e) log_msg =
    Retry_warning real
  | Connected_info
  | Closed_info
  | Dropped 'a
  | Queued 'a
  | Presend_struct 'a
  | Presend_done 'a
  | Cooldown_wait 'a real
  | Sent 'a
  | Watch_cancelled
  | Watch_closed
  | First_connected_done
  | Reconnected_done
  | Received string
  | Built 'e
  | Listen_exception
  | Listen_raw_event string
  | Listen_traceback exc
  | Listen_locals string
  | Listen_stopped
  | Listen_closed

text \<open>
  What the connector does to the outside, in the order it does it: a call of
  \<open>websockets.connect\<close>, an \<open>asyncio.sleep\<close> with its argument, a logging call, the tasks
  that \<open>to_task\<close> starts, an awaited \<open>emit\<close>, \<open>conn.send\<close> with the clock at the call and
  at its return, and \<open>conn.close\<close>.
\<close>

datatype ('a, 'e) effect =
    Connect
  | Sleep real
  | Log level "('a, 'e) log_msg"
  | Task_run
  | Task_listen
  | Task_respond 'e
  | Task_dispatch 'e
  | Emit "'a hook"
  | Conn_send 'a real real
  | Conn_close

text \<open>
  The attributes of the connector. \<open>cd_time\<close>, \<open>slack\<close>, \<open>_ready_signal\<close> and the logger
  belong to the base class \<open>AbstractConnector\<close>. \<open>client_close\<close> is \<open>None\<close> while the
  attribute does not exist: \<open>__init__\<close> only annotates it, \<open>_run\<close> assigns it. \<open>now\<close> is
  the clock, \<open>effects\<close> the effects so far.
\<close>

record ('a, 'e) ws_conn =
  max_retry :: int
  retry_delay :: real
  cd_time :: real
  logger_level :: level
  slack :: bool
  ready_signal :: bool
  send_queue :: "'a list"
  pre_send_time :: real
  client_close :: "future option"
  conn_ready :: bool
  allow_reconn :: bool
  reconn_flag :: bool
  now :: real
  effects :: "('a, 'e) effect list"

text \<open>
  \<open>__init__\<close>, called at time \<open>t\<close>. The retry delay is clamped at 0. The attributes of the
  base class, which is not part of the sources at hand, are parameters.
\<close>

definition ForwardWsConn ::
  "int \<Rightarrow> real \<Rightarrow> real \<Rightarrow> bool \<Rightarrow> level \<Rightarrow> bool \<Rightarrow> bool \<Rightarrow> real \<Rightarrow> ('a, 'e) ws_conn" where
  "ForwardWsConn max_retry' retry_delay' cd_time' allow_reconnect lvl slack' ready t =
     \<lparr>max_retry = max_retry',
      retry_delay = (if retry_delay' > 0 then retry_delay' else 0),
      cd_time = cd_time',
      logger_level = lvl,
      slack = slack',
      ready_signal = ready,
      send_queue = [],
      pre_send_time = t,
      client_close = None,
      conn_ready = False,
      allow_reconn = allow_reconnect,
      reconn_flag = False,
      now = t,
      effects = []\<rparr>"

text \<open>
  Appending effects, and \<open>asyncio.sleep\<close>: it returns after the delay, at once when the
  delay is not positive.
\<close>

definition effect :: "('a, 'e) effect list \<Rightarrow> ('a, 'e) ws_conn \<Rightarrow> ('a, 'e) ws_conn" where
  "effect es c = c\<lparr>effects := effects c @ es\<rparr>"

definition sleep :: "real \<Rightarrow> ('a, 'e) ws_conn \<Rightarrow> ('a, 'e) ws_conn" where
  "sleep delay c = c\<lparr>now := now c + max delay 0, effects := effects c @ [Sleep delay]\<rparr>"

text \<open>
  The iterators of \<open>_run\<close>: \<open>count(0)\<close> and \<open>range(max_retry + 1)\<close>, with \<open>next\<close>.
\<close>

datatype iter = Count int | Range int int

fun iter_next :: "iter \<Rightarrow> (int \<times> iter) option" where
  "iter_next (Count n) = Some (n, Count (n + 1))"
| "iter_next (Range i stop) = (if i < stop then Some (i, Range (i + 1) stop) else None)"

text \<open>
  The \<open>for\<close> loop of \<open>_run\<close>. \<open>opens i\<close> tells whether \<open>websockets.connect\<close> succeeds in
  the round whose loop variable is \<open>i\<close>. The result is \<open>created_flag\<close> and the connector;
  \<open>None\<close> when the loop is still running after \<open>fuel\<close> rounds.
\<close>

fun connect_loop ::
  "nat \<Rightarrow> (int \<Rightarrow> bool) \<Rightarrow> iter \<Rightarrow> ('a, 'e) ws_conn \<Rightarrow> (bool \<times> ('a, 'e) ws_conn) option" where
  "connect_loop 0 opens it c = None"
| "connect_loop (Suc fuel) opens it c =
     (case iter_next it of
        None \<Rightarrow> Some (False, c)
      | Some (i, it') \<Rightarrow>
          (let c1 = effect [Connect] c
           in if opens i then Some (True, c1)
              else connect_loop fuel opens it'
                     (sleep (retry_delay c1) (effect [Log WARNING (Retry_warning (retry_delay c1))] c1))))"

text \<open>
  \<open>_run\<close>, for one holder of \<open>_run_lock\<close>, up to the point where it awaits
  \<open>_client_close\<close>: \<open>Inl\<close> is the exception raised with the connector as it is then.
  \<open>run_finally\<close> is its \<open>finally\<close> block, which runs once the future is done.
\<close>

definition run ::
  "nat \<Rightarrow> (int \<Rightarrow> bool) \<Rightarrow> ('a, 'e) ws_conn \<Rightarrow> ((exc \<times> ('a, 'e) ws_conn) + ('a, 'e) ws_conn) option" where
  "run fuel opens c =
     (let c0 = c\<lparr>client_close := Some Pending\<rparr>;
          it = (if max_retry c0 < 0 then Count 0 else Range 0 (max_retry c0 + 1))
      in case connect_loop fuel opens it c0 of
           None \<Rightarrow> None
         | Some (created_flag, c1) \<Rightarrow>
             if \<not> created_flag then Some (Inl (BotConnectFailed, c1))
             else Some (Inr (effect [Log INFO Connected_info, Task_listen] (c1\<lparr>conn_ready := True\<rparr>))))"

definition run_finally :: "('a, 'e) ws_conn \<Rightarrow> ('a, 'e) ws_conn" where
  "run_finally c = effect [Conn_close, Log INFO Closed_info] c"

text \<open>
  \<open>_close\<close> and \<open>_reconnect\<close>. Reading \<open>_client_close\<close> before \<open>_run\<close> has assigned it
  raises \<open>AttributeError\<close>; \<open>set_result\<close> on a done future raises \<open>InvalidStateError\<close>.
\<close>

definition close :: "('a, 'e) ws_conn \<Rightarrow> exc + ('a, 'e) ws_conn" where
  "close c =
     (case client_close c of
        None \<Rightarrow> Inl AttributeError
      | Some f \<Rightarrow>
          if future_done f then Inr c
          else Inr (c\<lparr>allow_reconn := False, client_close := Some Finished\<rparr>))"

definition reconnect :: "('a, 'e) ws_conn \<Rightarrow> exc + ('a, 'e) ws_conn" where
  "reconnect c =
     (let c1 = c\<lparr>conn_ready := False\<rparr>
      in case client_close c1 of
           None \<Rightarrow> Inl AttributeError
         | Some f \<Rightarrow>
             if future_done f then Inl InvalidStateError
             else Inr (effect [Task_run] (c1\<lparr>client_close := Some Finished, reconn_flag := True\<rparr>)))"

text \<open>The \<open>finally\<close> block of \<open>_listen\<close>.\<close>

definition listen_finally :: "('a, 'e) ws_conn \<Rightarrow> exc + ('a, 'e) ws_conn" where
  "listen_finally c =
     (case client_close c of
        None \<Rightarrow> Inl AttributeError
      | Some f \<Rightarrow>
          if future_done f then Inr c
          else if \<not> allow_reconn c then close c
          else reconnect c)"


text \<open>One failed round of the loop of \<open>_run\<close>, for the proofs.\<close>

definition fail_once :: "('a, 'e) ws_conn \<Rightarrow> ('a, 'e) ws_conn" where
  "fail_once c =
     sleep (retry_delay c)
       (effect [Log WARNING (Retry_warning (retry_delay c))] (effect [Connect] c))"

subsection \<open>The receive loop\<close>

text \<open>
  What \<open>await self.conn.recv()\<close> gives in one round: a text unit, the exception
  \<open>ConnectionClosed\<close>, or the cancellation of the task (\<open>recv\<close> is the only point where the
  loop awaits). For its only reader the library raises nothing else, so no other failure
  of \<open>recv\<close> is modelled. \<open>exit\<close> is the way the \<open>while\<close> loop is left.
\<close>

datatype recv = Recv string | Recv_closed | Recv_cancelled

datatype exit = Exit_closed | Exit_cancelled

text \<open>
  The \<open>except\<close> clauses inside the loop, for an exception \<open>e\<close> raised after \<open>raw_event\<close>
  was received: \<open>ConnectionClosed\<close> is raised again, any other exception is logged in four
  error records (the notice, the raw event, the traceback, the local variables) and the
  loop goes on.
\<close>

definition listen_except ::
  "exc \<Rightarrow> string \<Rightarrow> ('a, 'e) ws_conn \<Rightarrow> exit option \<times> ('a, 'e) ws_conn" where
  "listen_except e raw_event c =
     (if e = ConnectionClosed then (Some Exit_closed, c)
      else (None, effect [Log ERROR Listen_exception,
                          Log ERROR (Listen_raw_event raw_event),
                          Log ERROR (Listen_traceback e),
                          Log ERROR (Listen_locals raw_event)] c))"

text \<open>
  The body of the loop for a unit that is not empty. \<open>build\<close> is the event builder and
  \<open>is_resp_event\<close> the test on its event; either may raise.
\<close>

definition listen_body ::
  "(string \<Rightarrow> exc + 'e) \<Rightarrow> ('e \<Rightarrow> exc + bool) \<Rightarrow> string \<Rightarrow> ('a, 'e) ws_conn
     \<Rightarrow> exit option \<times> ('a, 'e) ws_conn" where
  "listen_body build is_resp_event raw_event c =
     (case build raw_event of
        Inl e \<Rightarrow> listen_except e raw_event c
      | Inr event \<Rightarrow>
          (let c1 = (if logger_level c = DEBUG then effect [Log DEBUG (Built event)] c else c)
           in case is_resp_event event of
                Inl e \<Rightarrow> listen_except e raw_event c1
              | Inr is_resp \<Rightarrow>
                  if is_resp then (None, effect [Task_respond event] c1)
                  else (None, effect [Task_dispatch event] c1)))"

text \<open>
  The \<open>while True\<close> loop over the successive results of \<open>recv\<close>. The result is \<open>None\<close>
  with the connector when the loop is waiting for the next unit.
\<close>

fun listen_loop ::
  "(string \<Rightarrow> exc + 'e) \<Rightarrow> ('e \<Rightarrow> exc + bool) \<Rightarrow> recv list \<Rightarrow> ('a, 'e) ws_conn
     \<Rightarrow> exit option \<times> ('a, 'e) ws_conn" where
  "listen_loop build is_resp_event [] c = (None, c)"
| "listen_loop build is_resp_event (Recv_closed # rs) c = (Some Exit_closed, c)"
| "listen_loop build is_resp_event (Recv_cancelled # rs) c = (Some Exit_cancelled, c)"
| "listen_loop build is_resp_event (Recv raw_event # rs) c =
     (let c1 = effect [Log DEBUG (Received raw_event)] c
      in if raw_event = [] then listen_loop build is_resp_event rs c1
         else (case listen_body build is_resp_event raw_event c1 of
                 (Some ex, c2) \<Rightarrow> (Some ex, c2)
               | (None, c2) \<Rightarrow> listen_loop build is_resp_event rs c2))"

text \<open>
  Leaving the loop: the outer \<open>except\<close> clause logs one debug record, then the \<open>finally\<close>
  block runs. \<open>listen\<close> is the whole of \<open>_listen\<close>; it is \<open>None\<close> while the task waits for
  a signal or for \<open>recv\<close>.
\<close>

definition listen_exit :: "exit \<Rightarrow> ('a, 'e) ws_conn \<Rightarrow> exc + ('a, 'e) ws_conn" where
  "listen_exit ex c =
     listen_finally
       (case ex of
          Exit_cancelled \<Rightarrow> effect [Log DEBUG Listen_stopped] c
        | Exit_closed \<Rightarrow> effect [Log DEBUG Listen_closed] c)"

definition listen ::
  "(string \<Rightarrow> exc + 'e) \<Rightarrow> ('e \<Rightarrow> exc + bool) \<Rightarrow> recv list \<Rightarrow> ('a, 'e) ws_conn
     \<Rightarrow> (exc + ('a, 'e) ws_conn) option" where
  "listen build is_resp_event rs c =
     (if \<not> (ready_signal c \<and> conn_ready c) then None
      else
        (let c1 = (if \<not> reconn_flag c
                   then effect [Emit FIRST_CONNECTED, Log DEBUG First_connected_done] c
                   else effect [Emit RECONNECTED, Log DEBUG Reconnected_done] c)
         in case listen_loop build is_resp_event rs c1 of
              (None, c2) \<Rightarrow> None
            | (Some ex, c2) \<Rightarrow> Some (listen_exit ex c2)))"

text \<open>
  A terminal close has been requested: the future is done and reconnection is off.
  \<open>quiet c c'\<close>: from \<open>c\<close> to \<open>c'\<close> the request stands, the future is the same, and no
  \<open>_run\<close> task and no connect attempt was started.
\<close>

definition terminal :: "('a, 'e) ws_conn \<Rightarrow> bool" where
  "terminal c = ((case client_close c of None \<Rightarrow> False | Some f \<Rightarrow> future_done f) \<and> \<not> allow_reconn c)"

definition quiet :: "('a, 'e) ws_conn \<Rightarrow> ('a, 'e) ws_conn \<Rightarrow> bool" where
  "quiet c c' =
     (terminal c' \<and> client_close c' = client_close c
      \<and> count_list (effects c') Task_run = count_list (effects c) Task_run
      \<and> count_list (effects c') Connect = count_list (effects c) Connect)"

text \<open>
  An endpoint that never opens, and three connectors: one whose \<open>_run\<close> is asleep after
  its first failed attempt, the same after \<open>_close\<close>, and one whose \<open>_run\<close> is connected and
  awaits \<open>_client_close\<close>.
\<close>

definition never_opens :: "int \<Rightarrow> bool" where
  "never_opens i = False"

definition conn_retrying :: "(nat, nat) ws_conn" where
  "conn_retrying =
     fail_once ((ForwardWsConn 2 4 (1 / 5) True INFO False True 100)\<lparr>client_close := Some Pending\<rparr>)"

definition conn_closed :: "(nat, nat) ws_conn" where
  "conn_closed = conn_retrying\<lparr>allow_reconn := False, client_close := Some Finished\<rparr>"

definition conn_connected :: "(nat, nat) ws_conn" where
  "conn_connected =
     effect [Connect, Log INFO Connected_info, Task_listen]
       ((ForwardWsConn 2 4 (1 / 5) True INFO False True 100)
          \<lparr>client_close := Some Pending, conn_ready := True\<rparr>)"




subsection \<open>The send queue\<close>

text \<open>
  \<open>_send\<close>: it waits for both signals (\<open>None\<close>: still waiting); in slack mode the action
  is dropped, otherwise it is put at the end of the queue.
\<close>

definition send :: "'a \<Rightarrow> ('a, 'e) ws_conn \<Rightarrow> ('a, 'e) ws_conn option" where
  "send action c =
     (if \<not> (ready_signal c \<and> conn_ready c) then None
      else if slack c then Some (effect [Log DEBUG (Dropped action)] c)
      else Some (effect [Log DEBUG (Queued action)] (c\<lparr>send_queue := send_queue c @ [action]\<rparr>)))"

text \<open>
  What the surroundings decide in one round of \<open>_send_queue_watch\<close>: how long the awaited
  presend hook takes, how much later than asked \<open>asyncio.sleep\<close> returns, how long
  \<open>conn.send\<close> takes, and whether it succeeds or raises \<open>ConnectionClosed\<close>.
\<close>

record send_env =
  hook_time :: real
  sleep_extra :: real
  send_time :: real
  send_ok :: bool

text \<open>
  One round of the \<open>while True\<close> loop of \<open>_send_queue_watch\<close>, statement by statement.
  \<open>None\<close>: the round cannot be completed yet (a signal is not set, or the queue is empty).
  The result says whether the loop is left (on \<open>ConnectionClosed\<close>). The cancellation of
  the task, which ends the loop at any of its awaits, is not a part of the round. A round
  is one step from the state in which the action is still queued: the code has already
  taken the action from the queue when it waits for \<open>_conn_ready\<close>, and it waits for
  \<open>_ready_signal\<close> once, before the loop; here both waits are rounds that give \<open>None\<close> and
  leave the connector as it is.
\<close>

definition watch_round ::
  "send_env \<Rightarrow> ('a, 'e) ws_conn \<Rightarrow> (exit option \<times> ('a, 'e) ws_conn) option" where
  "watch_round env c =
     (if \<not> ready_signal c then None
      else case send_queue c of
        [] \<Rightarrow> None
      | action # q \<Rightarrow>
          if \<not> conn_ready c then None
          else
            (let c1 = c\<lparr>send_queue := q\<rparr>;
                 c2 = (if logger_level c1 = DEBUG
                       then effect [Log DEBUG (Presend_struct action)] c1 else c1);
                 c3 = (effect [Emit (ACTION_PRESEND action)] c2)\<lparr>now := now c2 + hook_time env\<rparr>;
                 c4 = effect [Log DEBUG (Presend_done action)] c3;
                 wait_time = cd_time c4 - (now c4 - pre_send_time c4);
                 c5 = effect [Log DEBUG (Cooldown_wait action wait_time)] c4;
                 c6 = sleep wait_time c5;
                 c7 = c6\<lparr>now := now c6 + sleep_extra env\<rparr>
             in if \<not> send_ok env then Some (Some Exit_closed, effect [Log ERROR Watch_closed] c7)
                else
                  (let c8 = (effect [Conn_send action (now c7) (now c7 + send_time env)] c7)
                              \<lparr>now := now c7 + send_time env\<rparr>;
                       c9 = effect [Log DEBUG (Sent action)] c8
                   in Some (None, c9\<lparr>pre_send_time := now c9\<rparr>))))"

text \<open>
  The sender loop runs beside the callers of \<open>_send\<close>: a schedule is a sequence of
  submissions, rounds of the loop and lapses of time. The flag tells whether the loop is
  still running.
\<close>

datatype 'a sched = Submit 'a | Round send_env | Elapse real

fun run_sched ::
  "'a sched list \<Rightarrow> bool \<times> ('a, 'e) ws_conn \<Rightarrow> bool \<times> ('a, 'e) ws_conn" where
  "run_sched [] s = s"
| "run_sched (Submit action # es) (alive, c) =
     run_sched es (alive, case send action c of None \<Rightarrow> c | Some c' \<Rightarrow> c')"
| "run_sched (Round env # es) (alive, c) =
     (if \<not> alive then run_sched es (alive, c)
      else case watch_round env c of
             None \<Rightarrow> run_sched es (alive, c)
           | Some (None, c') \<Rightarrow> run_sched es (True, c')
           | Some (Some ex, c') \<Rightarrow> run_sched es (False, c'))"
| "run_sched (Elapse d # es) (alive, c) = run_sched es (alive, c\<lparr>now := now c + d\<rparr>)"

text \<open>
  The transmissions among the effects (action, clock at the call of \<open>conn.send\<close>, clock at
  its return), the actions a schedule submits, and the rounds in which no duration is
  negative.
\<close>

fun sent :: "('a, 'e) effect list \<Rightarrow> ('a \<times> real \<times> real) list" where
  "sent [] = []"
| "sent (Conn_send action t1 t2 # es) = (action, t1, t2) # sent es"
| "sent (_ # es) = sent es"

fun submitted :: "'a sched list \<Rightarrow> 'a list" where
  "submitted [] = []"
| "submitted (Submit action # es) = action # submitted es"
| "submitted (_ # es) = submitted es"

fun timely :: "'a sched \<Rightarrow> bool" where
  "timely (Round env) = (0 \<le> sleep_extra env \<and> 0 \<le> send_time env)"
| "timely _ = True"

text \<open>The schedules in which \<open>conn.send\<close> never raises.\<close>

fun succeeds :: "'a sched \<Rightarrow> bool" where
  "succeeds (Round env) = send_ok env"
| "succeeds _ = True"

text \<open>
  After a close, the parts of the class that act on the connector: \<open>_close\<close> again (from
  \<open>__aexit__\<close>, or from the cancelled \<open>alive\<close> task), the receive loop leaving, a
  submission through \<open>_send\<close>, and a round of the sender loop (a submission or a round that
  has to wait changes nothing).
\<close>

datatype 'a step = Do_close | Do_listen_exit exit | Do_send 'a | Do_round send_env

fun do_step :: "'a step \<Rightarrow> ('a, 'e) ws_conn \<Rightarrow> exc + ('a, 'e) ws_conn" where
  "do_step Do_close c = close c"
| "do_step (Do_listen_exit ex) c = listen_exit ex c"
| "do_step (Do_send action) c = Inr (case send action c of None \<Rightarrow> c | Some c' \<Rightarrow> c')"
| "do_step (Do_round env) c =
     Inr (case watch_round env c of None \<Rightarrow> c | Some (x, c') \<Rightarrow> c')"

fun do_steps :: "'a step list \<Rightarrow> ('a, 'e) ws_conn \<Rightarrow> exc + ('a, 'e) ws_conn" where
  "do_steps [] c = Inr c"
| "do_steps (s # ss) c = (case do_step s c of Inl e \<Rightarrow> Inl e | Inr c' \<Rightarrow> do_steps ss c')"

text \<open>Two rounds and a schedule, for concrete runs.\<close>

definition slow_hook :: send_env where
  "slow_hook = \<lparr>hook_time = 1, sleep_extra = 0, send_time = 1 / 100, send_ok = True\<rparr>"

definition fast_hook :: send_env where
  "fast_hook = \<lparr>hook_time = 0, sleep_extra = 0, send_time = 1 / 100, send_ok = True\<rparr>"

definition example_sched :: "nat sched list" where
  "example_sched = [Submit 1, Submit 2, Round slow_hook, Submit 3, Round fast_hook]"

text \<open>
  The invariant of the sender loop: consecutive transmissions are at least \<open>cd\<close> apart, a
  transmission does not return before it is called, and \<open>_pre_send_time\<close> is the time the
  last transmission returned.
\<close>

definition spaced :: "real \<Rightarrow> ('a \<times> real \<times> real) list \<Rightarrow> bool" where
  "spaced cd xs =
     (\<forall>i. Suc i < length xs \<longrightarrow>
        cd \<le> fst (snd (xs ! Suc i)) - snd (snd (xs ! i))
        \<and> cd \<le> fst (snd (xs ! Suc i)) - fst (snd (xs ! i)))"

definition steady :: "('a, 'e) ws_conn \<Rightarrow> bool" where
  "steady c =
     (spaced (cd_time c) (sent (effects c))
      \<and> (\<forall>x\<in>set (sent (effects c)). fst (snd x) \<le> snd (snd x))
      \<and> (sent (effects c) \<noteq> [] \<longrightarrow> pre_send_time c = snd (snd (last (sent (effects c))))))"

section \<open>melobot/types/tools.py: cooldown\<close>



text \<open>
  The closure of the decorator: whether \<open>alock\<close> is held by a call in progress,
  \<open>pre_finish_t\<close>, the clock, and what the guarded calls have called so far (the busy
  callback, the cooldown callback with its argument, \<open>asyncio.sleep\<close> with its argument,
  the wrapped function).
\<close>

datatype cd_call = Call_busy | Call_cd real | Cd_sleep real | Call_func

record cooldown_state =
  alock_locked :: bool
  pre_finish_t :: real
  clock_time :: real
  calls :: "cd_call list"













definition fresh :: cooldown_state where
  "fresh = \<lparr>alock_locked = False, pre_finish_t = 94, clock_time = 100, calls = []\<rparr>"

section \<open>Proofs\<close>

subsection \<open>Flagable\<close>

lemma mark_fresh:
  assumes "mark fs ns fn v = Inr fs'"
  shows "\<exists>store flags. fs' = Some store \<and> store ns = Some flags \<and> flags fn = Some v"
  using assms
  by (auto simp: mark_def Let_def split: option.splits if_splits)

text \<open>
  C10: \<open>flag_check\<close> called with the default value (\<open>val = None\<close>) returns true if and only
  if the flag exists in the given namespace and its stored value is \<open>None\<close> itself. In
  particular, after a successful \<open>mark(namespace, name, v)\<close> with a value \<open>v\<close> that is not
  \<open>None\<close>, \<open>flag_check(namespace, name)\<close> without a value returns false although the flag
  is present.
\<close>

theorem flag_check_default_iff_none:
  "(flag_check fs ns fn PyNone \<longleftrightarrow>
      (\<exists>store flags. fs = Some store \<and> store ns = Some flags \<and> flags fn = Some PyNone))
   \<and> (v \<noteq> PyNone \<longrightarrow> mark fs ns fn v = Inr fs' \<longrightarrow>
        \<not> flag_check fs' ns fn PyNone
        \<and> (\<exists>store flags. fs' = Some store \<and> store ns = Some flags \<and> flags fn = Some v))"
proof (intro conjI impI)
  show "flag_check fs ns fn PyNone \<longleftrightarrow>
      (\<exists>store flags. fs = Some store \<and> store ns = Some flags \<and> flags fn = Some PyNone)"
    by (auto simp: flag_check_def Let_def split: option.splits)
next
  assume v: "v \<noteq> PyNone" and m: "mark fs ns fn v = Inr fs'"
  from mark_fresh [OF m] obtain store flags
    where s: "fs' = Some store" "store ns = Some flags" "flags fn = Some v"
    by blast
  from s v show "\<not> flag_check fs' ns fn PyNone"
    by (simp add: flag_check_def Let_def)
  from s show "\<exists>store flags. fs' = Some store \<and> store ns = Some flags \<and> flags fn = Some v"
    by blast
qed

theorem flag_check_default_iff_none_witness:
  "mark (Flagable_init :: nat flags_store) ''ns'' ''seen'' (PyObj 1)
     = Inr (Some ([''ns'' \<mapsto> [''seen'' \<mapsto> PyObj 1]]))
   \<and> \<not> flag_check (Some ([''ns'' \<mapsto> [''seen'' \<mapsto> PyObj (1::nat)]])) ''ns'' ''seen'' PyNone
   \<and> flag_check (Some ([''ns'' \<mapsto> [''seen'' \<mapsto> (PyNone :: nat pyval)]])) ''ns'' ''seen'' PyNone"
proof -
  have m: "mark (Flagable_init :: nat flags_store) ''ns'' ''seen'' (PyObj 1)
     = Inr (Some ([''ns'' \<mapsto> [''seen'' \<mapsto> PyObj 1]]))"
    by (simp add: mark_def Flagable_init_def Let_def)
  have ne: "PyObj (1::nat) \<noteq> PyNone" by simp
  from flag_check_default_iff_none
    [where fs = "Some ([''ns'' \<mapsto> [''seen'' \<mapsto> (PyNone :: nat pyval)]])"
       and ns = "''ns''" and fn = "''seen''" and v = PyNone]
  have "flag_check (Some ([''ns'' \<mapsto> [''seen'' \<mapsto> (PyNone :: nat pyval)]])) ''ns'' ''seen'' PyNone"
    by simp
  moreover
  from flag_check_default_iff_none
    [where fs = Flagable_init and ns = "''ns''" and fn = "''seen''" and v = "PyObj (1::nat)"
       and fs' = "Some ([''ns'' \<mapsto> [''seen'' \<mapsto> PyObj (1::nat)]])"] ne m
  have "\<not> flag_check (Some ([''ns'' \<mapsto> [''seen'' \<mapsto> PyObj (1::nat)]])) ''ns'' ''seen'' PyNone"
    by blast
  ultimately show ?thesis using m by blast
qed

subsection \<open>AsyncTwinEvent\<close>

lemma get_twin_event_result:
  assumes "get_twin_event = (h, a, b)"
  shows "a = 0" "b = 1" "\<not> is_set (h 0)" "is_set (h 1)" "paired h"
  using assms
  by (auto simp: get_twin_event_def Let_def bind_def base_set_def base_clear_def
      new_event_def paired_def)

lemma paired_do_call:
  assumes "paired h" and "target c = 0 \<or> target c = 1"
  shows "paired (do_call h c)"
  using assms
  by (cases c)
    (auto simp: paired_def event_set_def event_clear_def base_set_def base_clear_def Let_def)

lemma paired_do_calls:
  assumes "paired h" and "\<forall>c\<in>set cs. target c = 0 \<or> target c = 1"
  shows "paired (do_calls h cs)"
  using assms
  by (induction cs arbitrary: h) (simp_all add: paired_do_call)

lemma do_calls_snoc: "do_calls h (cs @ [c]) = do_call (do_calls h cs) c"
  by (induction cs arbitrary: h) simp_all

lemma paired_effects:
  assumes "paired h"
  shows "is_set (event_set h 0 0) \<and> \<not> is_set (event_set h 0 1)"
    and "is_set (event_set h 1 1) \<and> \<not> is_set (event_set h 1 0)"
    and "\<not> is_set (event_clear h 0 0) \<and> is_set (event_clear h 0 1)"
    and "\<not> is_set (event_clear h 1 1) \<and> is_set (event_clear h 1 0)"
  using assms
  by (auto simp: paired_def event_set_def event_clear_def base_set_def base_clear_def Let_def)

text \<open>
  C7: \<open>get_twin_event\<close> returns the first event unset and the second set. After any finite
  sequence of \<open>set\<close> and \<open>clear\<close> calls on the two events, exactly one of them is set;
  a further \<open>set\<close> on either leaves it set and its partner clear, and a further \<open>clear\<close> on
  either leaves it clear and its partner set.
\<close>

theorem twin_event_exactly_one_set:
  assumes "get_twin_event = (h, a, b)"
    and "\<forall>c\<in>set cs. target c = a \<or> target c = b"
  shows "\<not> is_set (h a) \<and> is_set (h b)
    \<and> is_set (do_calls h cs a) \<noteq> is_set (do_calls h cs b)
    \<and> is_set (do_calls h (cs @ [CallSet a]) a) \<and> \<not> is_set (do_calls h (cs @ [CallSet a]) b)
    \<and> is_set (do_calls h (cs @ [CallSet b]) b) \<and> \<not> is_set (do_calls h (cs @ [CallSet b]) a)
    \<and> \<not> is_set (do_calls h (cs @ [CallClear a]) a) \<and> is_set (do_calls h (cs @ [CallClear a]) b)
    \<and> \<not> is_set (do_calls h (cs @ [CallClear b]) b) \<and> is_set (do_calls h (cs @ [CallClear b]) a)"
proof -
  note r = get_twin_event_result [OF assms(1)]
  from assms(2) r(1,2) have t: "\<forall>c\<in>set cs. target c = 0 \<or> target c = 1"
    by simp
  have p: "paired (do_calls h cs)"
    by (rule paired_do_calls [OF r(5) t])
  from p have "is_set (do_calls h cs a) \<noteq> is_set (do_calls h cs b)"
    using r(1,2) by (simp add: paired_def)
  with paired_effects [OF p] r(1-4) show ?thesis
    by (simp add: do_calls_snoc)
qed

theorem twin_event_exactly_one_set_witness:
  "\<not> is_set (fst get_twin_event 0) \<and> is_set (fst get_twin_event 1)
   \<and> is_set (do_calls (fst get_twin_event) [CallSet 0, CallSet 0, CallClear 1, CallClear 0] 0)
       \<noteq> is_set (do_calls (fst get_twin_event) [CallSet 0, CallSet 0, CallClear 1, CallClear 0] 1)
   \<and> is_set (do_calls (fst get_twin_event) [CallSet 0] 0)
   \<and> \<not> is_set (do_calls (fst get_twin_event) [CallSet 0] 1)"
proof -
  have g: "get_twin_event = (fst get_twin_event, 0, 1)"
    by (simp add: get_twin_event_def Let_def)
  have "\<forall>c\<in>set [CallSet 0, CallSet 0, CallClear 1, CallClear 0]. target c = 0 \<or> target c = 1"
    by simp
  from twin_event_exactly_one_set [OF g this]
  have 1: "\<not> is_set (fst get_twin_event 0) \<and> is_set (fst get_twin_event 1)
   \<and> is_set (do_calls (fst get_twin_event) [CallSet 0, CallSet 0, CallClear 1, CallClear 0] 0)
       \<noteq> is_set (do_calls (fst get_twin_event) [CallSet 0, CallSet 0, CallClear 1, CallClear 0] 1)"
    by blast
  have "\<forall>c\<in>set []. target c = 0 \<or> target c = (1::nat)"
    by simp
  from twin_event_exactly_one_set [OF g this]
  have 2: "is_set (do_calls (fst get_twin_event) [CallSet 0] 0)
   \<and> \<not> is_set (do_calls (fst get_twin_event) [CallSet 0] 1)"
    by simp
  from 1 2 show ?thesis by blast
qed

subsection \<open>IdWorker\<close>

lemma consts_val: "MAX_WORKER_ID = 7" "MAX_DATACENTER_ID = 31" "SEQUENCE_MASK = 4095"
  by (simp_all add: MAX_WORKER_ID_def MAX_DATACENTER_ID_def SEQUENCE_MASK_def mask_eq_exp_minus_1)

lemma push_bit_or_add:
  fixes x lo :: int
  assumes "0 \<le> lo" "lo < 2 ^ n"
  shows "push_bit n x OR lo = x * 2 ^ n + lo"
proof -
  from assms have lo: "take_bit n lo = lo"
    by (simp add: take_bit_int_eq_self)
  have "push_bit n x AND take_bit n lo = 0"
    by (rule bit_eqI) (auto simp: bit_simps)
  then have "push_bit n x + take_bit n lo = push_bit n x OR take_bit n lo"
    by (rule disjunctive_add_eq_or)
  with lo show ?thesis
    by (simp add: push_bit_eq_mult)
qed

lemma and_mask_4095:
  fixes x :: int
  shows "x AND 4095 = x mod 4096"
proof -
  have "x AND mask 12 = take_bit 12 x"
    by (simp add: take_bit_eq_mask)
  then show ?thesis
    by (simp add: take_bit_eq_mod mask_eq_exp_minus_1)
qed

lemma new_id_sum:
  fixes ts dc wid sq :: int
  assumes "0 \<le> wid" "wid \<le> 7" "0 \<le> dc" "dc \<le> 31" "0 \<le> sq" "sq \<le> 4095"
  shows "push_bit TIMESTAMP_LEFT_SHIFT (ts - STARTEPOCH) OR push_bit DATACENTER_ID_SHIFT dc
           OR push_bit WOKER_ID_SHIFT wid OR sq
         = (ts - STARTEPOCH) * 2 ^ 20 + dc * 2 ^ 15 + wid * 2 ^ 12 + sq"
proof -
  have 1: "push_bit 12 wid OR sq = wid * 2 ^ 12 + sq"
    using assms by (intro push_bit_or_add) simp_all
  have 2: "push_bit 15 dc OR (wid * 2 ^ 12 + sq) = dc * 2 ^ 15 + (wid * 2 ^ 12 + sq)"
    using assms by (intro push_bit_or_add) simp_all
  have 3: "push_bit 20 (ts - STARTEPOCH) OR (dc * 2 ^ 15 + (wid * 2 ^ 12 + sq))
      = (ts - STARTEPOCH) * 2 ^ 20 + (dc * 2 ^ 15 + (wid * 2 ^ 12 + sq))"
    using assms by (intro push_bit_or_add) simp_all
  have shifts: "TIMESTAMP_LEFT_SHIFT = 20" "DATACENTER_ID_SHIFT = 15" "WOKER_ID_SHIFT = 12"
    by (simp_all add: TIMESTAMP_LEFT_SHIFT_def DATACENTER_ID_SHIFT_def WOKER_ID_SHIFT_def)
  show ?thesis
    unfolding shifts 1 2 3 by (simp only: add.assoc)
qed

lemma til_next_millis_Some:
  assumes "til_next_millis l clock = Some (t, rest)"
  shows "l < t \<and> (\<exists>skipped. clock = skipped @ t # rest \<and> (\<forall>s\<in>set skipped. s \<le> l))"
  using assms
proof (induction clock)
  case Nil
  then show ?case by simp
next
  case (Cons c clock)
  show ?case
  proof (cases "c \<le> l")
    case True
    with Cons.prems have "til_next_millis l clock = Some (t, rest)"
      by simp
    from Cons.IH [OF this] obtain skipped
      where "l < t" "clock = skipped @ t # rest" "\<forall>s\<in>set skipped. s \<le> l"
      by blast
    with True have "c # clock = (c # skipped) @ t # rest \<and> (\<forall>s\<in>set (c # skipped). s \<le> l)"
      by simp
    with \<open>l < t\<close> show ?thesis by blast
  next
    case False
    with Cons.prems have "t = c" "rest = clock"
      by simp_all
    with False have "l < t" "c # clock = [] @ t # rest" "\<forall>s\<in>set []. s \<le> l"
      by simp_all
    then show ?thesis by blast
  qed
qed

lemma til_next_millis_None: "til_next_millis l clock = None \<longleftrightarrow> (\<forall>s\<in>set clock. s \<le> l)"
  by (induction clock) auto


lemma new_id_value:
  assumes "valid_worker w" "0 \<le> sequence w" "sequence w \<le> 4095"
  shows "new_id (last_timestamp w) w = id_value w"
  using assms new_id_sum [of "worker_id w" "datacenter_id w" "sequence w" "last_timestamp w"]
  by (simp add: new_id_def id_value_def valid_worker_def)

lemma get_id_cases:
  assumes "get_id w clock = Some (Inr (i, w', clock'))"
  obtains
    (same) "clock = last_timestamp w # clock'"
      "(sequence w + 1) AND SEQUENCE_MASK \<noteq> 0"
      "w' = w\<lparr>sequence := (sequence w + 1) AND SEQUENCE_MASK\<rparr>"
      "i = new_id (last_timestamp w') w'"
  | (wrap) rest t where "clock = last_timestamp w # rest"
      "(sequence w + 1) AND SEQUENCE_MASK = 0"
      "til_next_millis (last_timestamp w) rest = Some (t, clock')"
      "w' = w\<lparr>sequence := 0, last_timestamp := t\<rparr>"
      "i = new_id (last_timestamp w') w'"
  | (later) t where "clock = t # clock'" "last_timestamp w < t"
      "w' = w\<lparr>sequence := 0, last_timestamp := t\<rparr>"
      "i = new_id (last_timestamp w') w'"
proof (cases clock)
  case Nil
  with assms show ?thesis by (simp add: get_id_def)
next
  case (Cons ts clock1)
  show ?thesis
  proof (cases "ts = last_timestamp w")
    case eq: True
    show ?thesis
    proof (cases "(sequence w + 1) AND SEQUENCE_MASK = 0")
      case True
      with assms Cons eq obtain t where
        "til_next_millis (last_timestamp w) clock1 = Some (t, clock')"
        "w' = w\<lparr>sequence := 0, last_timestamp := t\<rparr>"
        "i = new_id (last_timestamp w') w'"
        by (auto simp: get_id_def Let_def split: option.splits)
      with True Cons eq show ?thesis by (intro wrap) simp_all
    next
      case False
      with assms Cons eq have
        "clock1 = clock'"
        "w' = w\<lparr>sequence := (sequence w + 1) AND SEQUENCE_MASK\<rparr>"
        "i = new_id (last_timestamp w') w'"
        by (auto simp: get_id_def Let_def split: option.splits)
      with False Cons eq show ?thesis by (intro same) simp_all
    qed
  next
    case False
    with assms Cons have "last_timestamp w < ts" "clock1 = clock'"
        "w' = w\<lparr>sequence := 0, last_timestamp := ts\<rparr>"
        "i = new_id (last_timestamp w') w'"
      by (auto simp: get_id_def Let_def split: if_splits)
    with Cons show ?thesis by (intro later) simp_all
  qed
qed

lemma get_id_step:
  assumes v: "valid_worker w" and g: "get_id w clock = Some (Inr (i, w', clock'))"
  shows "valid_worker w' \<and> 0 \<le> sequence w' \<and> sequence w' \<le> 4095 \<and> i = id_value w'"
    and "0 \<le> sequence w \<Longrightarrow> sequence w \<le> 4095 \<Longrightarrow> id_value w < id_value w'"
proof -
  have m: "0 \<le> (sequence w + 1) mod 4096" "(sequence w + 1) mod 4096 \<le> 4095"
    by simp_all
  from g have w': "valid_worker w' \<and> 0 \<le> sequence w' \<and> sequence w' \<le> 4095"
    using v m by (cases rule: get_id_cases)
      (simp_all add: valid_worker_def consts_val and_mask_4095)
  moreover from g have "i = new_id (last_timestamp w') w'"
    by (cases rule: get_id_cases) simp_all
  ultimately show "valid_worker w' \<and> 0 \<le> sequence w' \<and> sequence w' \<le> 4095 \<and> i = id_value w'"
    by (simp add: new_id_value)
  assume s: "0 \<le> sequence w" "sequence w \<le> 4095"
  from g show "id_value w < id_value w'"
  proof (cases rule: get_id_cases)
    case same
    from same(2) s have "sequence w + 1 \<le> 4095"
      by (cases "sequence w = 4095") (simp_all add: consts_val and_mask_4095)
    with s have "(sequence w + 1) mod 4096 = sequence w + 1"
      by simp
    with same(3) show ?thesis
      by (simp add: id_value_def consts_val and_mask_4095)
  next
    case (wrap rest t)
    from til_next_millis_Some [OF wrap(3)] have "last_timestamp w + 1 \<le> t"
      by simp
    then have "(last_timestamp w - STARTEPOCH) * 2 ^ 20 + 2 ^ 20 \<le> (t - STARTEPOCH) * 2 ^ 20"
      by (simp add: algebra_simps)
    with s wrap(4) show ?thesis
      by (simp add: id_value_def)
  next
    case (later t)
    then have "last_timestamp w + 1 \<le> t"
      by simp
    then have "(last_timestamp w - STARTEPOCH) * 2 ^ 20 + 2 ^ 20 \<le> (t - STARTEPOCH) * 2 ^ 20"
      by (simp add: algebra_simps)
    with s later(3) show ?thesis
      by (simp add: id_value_def)
  qed
qed


lemma get_ids_increasing_from:
  assumes "valid_worker w" "0 \<le> sequence w" "sequence w \<le> 4095"
    and "get_ids n w clock = Some (Inr (ids, w', clock'))"
  shows "sorted_wrt (<) ids \<and> (\<forall>i\<in>set ids. id_value w < i) \<and> length ids = n \<and> valid_worker w'"
  using assms
proof (induction n arbitrary: w clock ids)
  case 0
  then show ?case by simp
next
  case (Suc n)
  from Suc.prems(4) obtain i w1 clock1 ids1 where
    g: "get_id w clock = Some (Inr (i, w1, clock1))"
    and r: "get_ids n w1 clock1 = Some (Inr (ids1, w', clock'))"
    and ids: "ids = i # ids1"
    by (auto split: option.splits sum.splits)
  note st = get_id_step [OF Suc.prems(1) g]
  from st(1) have w1: "valid_worker w1" "0 \<le> sequence w1" "sequence w1 \<le> 4095" "i = id_value w1"
    by simp_all
  from st(2) Suc.prems(2,3) have lt: "id_value w < id_value w1"
    by simp
  from Suc.IH [OF w1(1-3) r]
  have ih: "sorted_wrt (<) ids1" "\<forall>j\<in>set ids1. id_value w1 < j" "length ids1 = n" "valid_worker w'"
    by simp_all
  from ih lt w1(4) ids show ?case
    by auto
qed

lemma get_ids_increasing:
  assumes "valid_worker w" and "get_ids n w clock = Some (Inr (ids, w', clock'))"
  shows "sorted_wrt (<) ids \<and> length ids = n \<and> valid_worker w'"
proof (cases n)
  case 0
  with assms show ?thesis by simp
next
  case (Suc m)
  with assms(2) obtain i w1 clock1 ids1 where
    g: "get_id w clock = Some (Inr (i, w1, clock1))"
    and r: "get_ids m w1 clock1 = Some (Inr (ids1, w', clock'))"
    and ids: "ids = i # ids1"
    by (auto split: option.splits sum.splits)
  from get_id_step(1) [OF assms(1) g]
  have w1: "valid_worker w1" "0 \<le> sequence w1" "sequence w1 \<le> 4095" "i = id_value w1"
    by simp_all
  from get_ids_increasing_from [OF w1(1-3) r] w1(4) ids Suc show ?thesis
    by auto
qed

lemma get_id_wrap:
  assumes "(sequence w + 1) AND SEQUENCE_MASK = 0"
  shows "get_id w (last_timestamp w # rest) =
     (case til_next_millis (last_timestamp w) rest of
        None \<Rightarrow> None
      | Some (t, clock') \<Rightarrow>
          Some (Inr (new_id t (w\<lparr>sequence := 0, last_timestamp := t\<rparr>),
                     w\<lparr>sequence := 0, last_timestamp := t\<rparr>, clock')))"
  using assms by (simp add: get_id_def Let_def split: option.splits)

lemma new_id_components:
  assumes "valid_worker w" "0 \<le> sequence w" "sequence w \<le> 4095"
  shows "drop_bit TIMESTAMP_LEFT_SHIFT (new_id (last_timestamp w) w) = last_timestamp w - STARTEPOCH"
    and "new_id (last_timestamp w) w AND SEQUENCE_MASK = sequence w"
proof -
  define lo where "lo = datacenter_id w * 2 ^ 15 + worker_id w * 2 ^ 12 + sequence w"
  define hi where "hi = last_timestamp w - STARTEPOCH"
  from assms have lo: "0 \<le> lo" "lo < 2 ^ 20"
    by (simp_all add: lo_def valid_worker_def)
  have id: "new_id (last_timestamp w) w = hi * 2 ^ 20 + lo"
    using new_id_value [OF assms] by (simp add: id_value_def lo_def hi_def)
  from lo have "(hi * 2 ^ 20 + lo) div 2 ^ 20 = hi"
    by simp
  then show "drop_bit TIMESTAMP_LEFT_SHIFT (new_id (last_timestamp w) w) = last_timestamp w - STARTEPOCH"
    by (simp add: id drop_bit_eq_div TIMESTAMP_LEFT_SHIFT_def hi_def)
  have "(hi * 2 ^ 20 + lo) mod 4096 = lo mod 4096"
  proof -
    have "hi * 2 ^ 20 = 4096 * (hi * 256)" by simp
    then show ?thesis by (metis mod_mult_self4)
  qed
  also have "lo mod 4096 = sequence w mod 4096"
  proof -
    have "lo = 4096 * (datacenter_id w * 8 + worker_id w) + sequence w"
      by (simp add: lo_def)
    then show ?thesis by (metis mod_mult_self4)
  qed
  also from assms have "sequence w mod 4096 = sequence w"
    by simp
  finally show "new_id (last_timestamp w) w AND SEQUENCE_MASK = sequence w"
    by (simp add: id consts_val and_mask_4095)
qed

lemma get_id_no_rollback:
  assumes "sorted clock" and "\<forall>t\<in>set clock. last_timestamp w \<le> t"
  shows "get_id w clock \<noteq> Some (Inl e)"
    and "get_id w clock = Some (Inr (i, w', clock'))
      \<Longrightarrow> sorted clock' \<and> (\<forall>t\<in>set clock'. last_timestamp w' \<le> t)"
proof -
  from assms(2) show "get_id w clock \<noteq> Some (Inl e)"
    by (cases clock) (auto simp: get_id_def Let_def split: option.splits)
  assume g: "get_id w clock = Some (Inr (i, w', clock'))"
  then show "sorted clock' \<and> (\<forall>t\<in>set clock'. last_timestamp w' \<le> t)"
  proof (cases rule: get_id_cases)
    case same
    with assms show ?thesis by simp
  next
    case (wrap rest t)
    from til_next_millis_Some [OF wrap(3)] obtain skipped where "rest = skipped @ t # clock'"
      by blast
    with wrap(1) assms(1) have "sorted (t # clock')"
      by (simp add: sorted_append)
    with wrap(4) show ?thesis by simp
  next
    case (later t)
    with assms show ?thesis by simp
  qed
qed

lemma get_ids_no_rollback:
  assumes "sorted clock" and "\<forall>t\<in>set clock. last_timestamp w \<le> t"
  shows "get_ids n w clock \<noteq> Some (Inl e)"
  using assms
proof (induction n arbitrary: w clock)
  case 0
  then show ?case by simp
next
  case (Suc n)
  note nr = get_id_no_rollback [OF Suc.prems]
  show ?case
  proof (cases "get_id w clock")
    case None
    then show ?thesis by simp
  next
    case (Some r)
    show ?thesis
    proof (cases r)
      case (Inl e')
      with Some nr(1) show ?thesis by simp
    next
      case (Inr x)
      obtain i w1 clock1 where x: "x = (i, w1, clock1)"
        by (cases x)
      from nr(2) Some Inr x have "sorted clock1" "\<forall>t\<in>set clock1. last_timestamp w1 \<le> t"
        by simp_all
      from Suc.IH [OF this] Some Inr x show ?thesis
        by (auto split: option.splits sum.splits)
    qed
  qed
qed


lemma IdWorker_valid:
  assumes "IdWorker dc wid s0 = Inr w"
  shows "valid_worker w" and "last_timestamp w = -1"
  using assms
  by (auto simp: IdWorker_def valid_worker_def consts_val split: if_splits)

lemma til_next_millis_append:
  "til_next_millis l (xs @ ys) =
     (case til_next_millis l xs of
        None \<Rightarrow> til_next_millis l ys
      | Some (t, r) \<Rightarrow> Some (t, r @ ys))"
  by (induction xs) simp_all

lemma get_id_returns:
  assumes "advancing w clock adv" and "adv \<noteq> []"
  shows "\<exists>i w' clock' adv'. get_id w (clock @ adv) = Some (Inr (i, w', clock' @ adv'))
           \<and> advancing w' clock' adv' \<and> length adv \<le> Suc (length adv')"
proof -
  from assms(2) obtain a adv1 where adv: "adv = a # adv1"
    by (cases adv) auto
  from assms(1) have inv: "sorted clock" "\<forall>t\<in>set clock. last_timestamp w \<le> t"
    "sorted_wrt (<) adv" "\<forall>a\<in>set adv. last_timestamp w < a \<and> (\<forall>t\<in>set clock. t < a)"
    by (simp_all add: advancing_def)
  from inv(3,4) adv have a: "last_timestamp w < a" "\<forall>b\<in>set adv1. a < b" "sorted_wrt (<) adv1"
    by simp_all
  have fresh: "\<And>w'. last_timestamp w' = a \<Longrightarrow> advancing w' [] adv1"
    using a by (simp add: advancing_def)
  show ?thesis
  proof (cases clock)
    case Nil
    define w' where "w' = w\<lparr>sequence := 0, last_timestamp := a\<rparr>"
    from Nil adv a(1) have "get_id w (clock @ adv) = Some (Inr (new_id a w', w', [] @ adv1))"
      by (simp add: get_id_def Let_def w'_def)
    moreover have "advancing w' [] adv1"
      by (rule fresh) (simp add: w'_def)
    moreover from adv have "length adv \<le> Suc (length adv1)"
      by simp
    ultimately show ?thesis by blast
  next
    case (Cons t clock1)
    with inv have t: "last_timestamp w \<le> t" "sorted clock1" "\<forall>s\<in>set clock1. t \<le> s"
      "\<forall>a\<in>set adv. t < a \<and> (\<forall>s\<in>set clock1. s < a)"
      by simp_all
    show ?thesis
    proof (cases "t = last_timestamp w")
      case False
      define w' where "w' = w\<lparr>sequence := 0, last_timestamp := t\<rparr>"
      from False t(1) Cons have "get_id w (clock @ adv) = Some (Inr (new_id t w', w', clock1 @ adv))"
        by (simp add: get_id_def Let_def w'_def)
      moreover from t inv(3) have "advancing w' clock1 adv"
        by (simp add: advancing_def w'_def)
      ultimately show ?thesis by fastforce
    next
      case eq: True
      show ?thesis
      proof (cases "(sequence w + 1) AND SEQUENCE_MASK = 0")
        case False
        define w' where "w' = w\<lparr>sequence := (sequence w + 1) AND SEQUENCE_MASK\<rparr>"
        from False eq Cons have "get_id w (clock @ adv) = Some (Inr (new_id t w', w', clock1 @ adv))"
          by (simp add: get_id_def Let_def w'_def)
        moreover from t inv(3) eq have "advancing w' clock1 adv"
          by (simp add: advancing_def w'_def)
        ultimately show ?thesis by fastforce
      next
        case True
        note gw = get_id_wrap [OF True, of "clock1 @ adv"]
        show ?thesis
        proof (cases "til_next_millis (last_timestamp w) clock1")
          case None
          define w' where "w' = w\<lparr>sequence := 0, last_timestamp := a\<rparr>"
          from None adv a(1) have "til_next_millis (last_timestamp w) (clock1 @ adv) = Some (a, adv1)"
            by (simp add: til_next_millis_append)
          with gw eq Cons have "get_id w (clock @ adv) = Some (Inr (new_id a w', w', [] @ adv1))"
            by (simp add: w'_def)
          moreover have "advancing w' [] adv1"
            by (rule fresh) (simp add: w'_def)
          moreover from adv have "length adv \<le> Suc (length adv1)"
            by simp
          ultimately show ?thesis by blast
        next
          case (Some p)
          then obtain t' r where til: "til_next_millis (last_timestamp w) clock1 = Some (t', r)"
            by (cases p) simp
          define w' where "w' = w\<lparr>sequence := 0, last_timestamp := t'\<rparr>"
          from til_next_millis_Some [OF til] obtain skipped where
            sk: "clock1 = skipped @ t' # r"
            by blast
          from til have "til_next_millis (last_timestamp w) (clock1 @ adv) = Some (t', r @ adv)"
            by (simp add: til_next_millis_append)
          with gw eq Cons have "get_id w (clock @ adv) = Some (Inr (new_id t' w', w', r @ adv))"
            by (simp add: w'_def)
          moreover from sk t inv(3) have "advancing w' r adv"
            by (auto simp: advancing_def w'_def sorted_append)
          ultimately show ?thesis by fastforce
        qed
      qed
    qed
  qed
qed

lemma get_ids_returns:
  assumes "advancing w clock adv" and "n \<le> length adv"
  shows "\<exists>ids w' rest. get_ids n w (clock @ adv) = Some (Inr (ids, w', rest))"
  using assms
proof (induction n arbitrary: w clock adv)
  case 0
  then show ?case by simp
next
  case (Suc n)
  then have "adv \<noteq> []" by auto
  from get_id_returns [OF Suc.prems(1) this] obtain i w' clock' adv' where
    g: "get_id w (clock @ adv) = Some (Inr (i, w', clock' @ adv'))"
    and inv: "advancing w' clock' adv'" and len: "length adv \<le> Suc (length adv')"
    by blast
  from len Suc.prems(2) have "n \<le> length adv'" by simp
  from Suc.IH [OF inv this] obtain ids w'' rest where
    "get_ids n w' (clock' @ adv') = Some (Inr (ids, w'', rest))"
    by blast
  with g show ?case by simp
qed

lemma get_id_returns_at_once:
  assumes "last_timestamp w \<le> t" and "t \<noteq> last_timestamp w \<or> (sequence w + 1) AND SEQUENCE_MASK \<noteq> 0"
  shows "\<exists>i w'. get_id w (t # rest) = Some (Inr (i, w', rest)) \<and> last_timestamp w' = t"
  using assms by (auto simp: get_id_def Let_def)

text \<open>
  C8: for a worker made by \<open>IdWorker\<close>, the ids that \<open>n\<close> successive \<open>get_id\<close> calls return
  are strictly increasing, hence pairwise distinct, whatever \<open>n\<close> is, and the calls do
  return. A call returns at once, with the reading as its timestamp, unless it reads the
  last recorded millisecond with the sequence counter wrapping to zero. In that case it
  does not return while the clock stays at or before the last recorded timestamp; once a
  reading is beyond it, the call returns with that reading as its timestamp, which is
  strictly greater, and with sequence zero, and both are the components of the id. Under a
  non-decreasing clock that starts at or after -1 no call raises; and when such a clock
  goes on to advance (after the readings \<open>clock\<close>, the readings \<open>adv\<close> strictly increase, at
  least one per call), all \<open>n\<close> calls return, with strictly increasing and pairwise distinct
  ids: so do 5000 calls of which the first 4097 read the same millisecond, more than the
  4096 sequence values.
\<close>

theorem get_id_strictly_increasing:
  assumes "IdWorker dc wid s0 = Inr w0"
  shows "(\<forall>ids w clock1. get_ids n w0 clock = Some (Inr (ids, w, clock1)) \<longrightarrow>
            sorted_wrt (<) ids \<and> distinct ids \<and> length ids = n
            \<and> (\<forall>rest. clock1 = last_timestamp w # rest
                  \<and> (sequence w + 1) AND SEQUENCE_MASK = 0 \<longrightarrow>
                  (if \<forall>s\<in>set rest. s \<le> last_timestamp w then get_id w clock1 = None
                   else \<exists>i w' skipped t clock2.
                      get_id w clock1 = Some (Inr (i, w', clock2))
                      \<and> rest = skipped @ t # clock2
                      \<and> (\<forall>s\<in>set skipped. s \<le> last_timestamp w)
                      \<and> last_timestamp w < t \<and> last_timestamp w' = t \<and> sequence w' = 0
                      \<and> drop_bit TIMESTAMP_LEFT_SHIFT i = t - STARTEPOCH
                      \<and> i AND SEQUENCE_MASK = 0))
            \<and> (\<forall>t rest. clock1 = t # rest \<and> last_timestamp w \<le> t
                  \<and> (t \<noteq> last_timestamp w \<or> (sequence w + 1) AND SEQUENCE_MASK \<noteq> 0) \<longrightarrow>
                  (\<exists>i w'. get_id w clock1 = Some (Inr (i, w', rest)) \<and> last_timestamp w' = t)))
       \<and> (sorted clock \<and> (\<forall>t\<in>set clock. -1 \<le> t) \<longrightarrow>
            (\<forall>e. get_ids n w0 clock \<noteq> Some (Inl e)))
       \<and> (sorted clock \<and> (\<forall>t\<in>set clock. -1 \<le> t) \<and> sorted_wrt (<) adv
            \<and> (\<forall>a\<in>set adv. -1 < a \<and> (\<forall>t\<in>set clock. t < a)) \<and> n \<le> length adv \<longrightarrow>
            (\<exists>ids w rest. get_ids n w0 (clock @ adv) = Some (Inr (ids, w, rest))
               \<and> sorted_wrt (<) ids \<and> distinct ids \<and> length ids = n))"
proof (intro conjI allI impI)
  fix ids w clock1
  assume run: "get_ids n w0 clock = Some (Inr (ids, w, clock1))"
  note v0 = IdWorker_valid [OF assms]
  from get_ids_increasing [OF v0(1) run]
  have inc: "sorted_wrt (<) ids" "length ids = n" "valid_worker w"
    by simp_all
  show "sorted_wrt (<) ids" by fact
  show "length ids = n" by fact
  from inc(1) show "distinct ids"
    by (simp add: strict_sorted_iff)
  fix rest
  assume c: "clock1 = last_timestamp w # rest \<and> (sequence w + 1) AND SEQUENCE_MASK = 0"
  then have gw: "get_id w clock1 =
     (case til_next_millis (last_timestamp w) rest of
        None \<Rightarrow> None
      | Some (t, clock') \<Rightarrow>
          Some (Inr (new_id t (w\<lparr>sequence := 0, last_timestamp := t\<rparr>),
                     w\<lparr>sequence := 0, last_timestamp := t\<rparr>, clock')))"
    by (simp add: get_id_wrap)
  show "if \<forall>s\<in>set rest. s \<le> last_timestamp w then get_id w clock1 = None
        else \<exists>i w' skipped t clock2.
          get_id w clock1 = Some (Inr (i, w', clock2))
          \<and> rest = skipped @ t # clock2
          \<and> (\<forall>s\<in>set skipped. s \<le> last_timestamp w)
          \<and> last_timestamp w < t \<and> last_timestamp w' = t \<and> sequence w' = 0
          \<and> drop_bit TIMESTAMP_LEFT_SHIFT i = t - STARTEPOCH
          \<and> i AND SEQUENCE_MASK = 0"
  proof (cases "\<forall>s\<in>set rest. s \<le> last_timestamp w")
    case True
    then have "til_next_millis (last_timestamp w) rest = None"
      by (simp add: til_next_millis_None)
    with gw True show ?thesis by simp
  next
    case False
    then obtain t clock2 where til: "til_next_millis (last_timestamp w) rest = Some (t, clock2)"
      using til_next_millis_None [of "last_timestamp w" rest] by (cases "til_next_millis (last_timestamp w) rest") auto
    from til_next_millis_Some [OF til] obtain skipped where
      sk: "last_timestamp w < t" "rest = skipped @ t # clock2" "\<forall>s\<in>set skipped. s \<le> last_timestamp w"
      by blast
    define w' where "w' = w\<lparr>sequence := 0, last_timestamp := t\<rparr>"
    from inc(3) have v': "valid_worker w'" "0 \<le> sequence w'" "sequence w' \<le> 4095"
      by (simp_all add: w'_def valid_worker_def)
    from new_id_components [OF v'] have comp:
      "drop_bit TIMESTAMP_LEFT_SHIFT (new_id t w') = t - STARTEPOCH" "new_id t w' AND SEQUENCE_MASK = 0"
      by (simp_all add: w'_def)
    from gw til have "get_id w clock1 = Some (Inr (new_id t w', w', clock2))"
      by (simp add: w'_def)
    with sk comp have "get_id w clock1 = Some (Inr (new_id t w', w', clock2))
          \<and> rest = skipped @ t # clock2
          \<and> (\<forall>s\<in>set skipped. s \<le> last_timestamp w)
          \<and> last_timestamp w < t \<and> last_timestamp w' = t \<and> sequence w' = 0
          \<and> drop_bit TIMESTAMP_LEFT_SHIFT (new_id t w') = t - STARTEPOCH
          \<and> new_id t w' AND SEQUENCE_MASK = 0"
      by (simp add: w'_def)
    then have "\<exists>i w' skipped t clock2.
          get_id w clock1 = Some (Inr (i, w', clock2))
          \<and> rest = skipped @ t # clock2
          \<and> (\<forall>s\<in>set skipped. s \<le> last_timestamp w)
          \<and> last_timestamp w < t \<and> last_timestamp w' = t \<and> sequence w' = 0
          \<and> drop_bit TIMESTAMP_LEFT_SHIFT i = t - STARTEPOCH
          \<and> i AND SEQUENCE_MASK = 0"
      by blast
    then show ?thesis
      unfolding if_not_P [OF False] .
  qed
next
  fix ids and w :: id_worker and clock1 t rest
  assume "clock1 = t # rest \<and> last_timestamp w \<le> t
            \<and> (t \<noteq> last_timestamp w \<or> (sequence w + 1) AND SEQUENCE_MASK \<noteq> 0)"
  then show "\<exists>i w'. get_id w clock1 = Some (Inr (i, w', rest)) \<and> last_timestamp w' = t"
    using get_id_returns_at_once [of w t rest] by simp
next
  fix e
  assume "sorted clock \<and> (\<forall>t\<in>set clock. -1 \<le> t)"
  with IdWorker_valid(2) [OF assms] show "get_ids n w0 clock \<noteq> Some (Inl e)"
    by (intro get_ids_no_rollback) simp_all
next
  assume h: "sorted clock \<and> (\<forall>t\<in>set clock. -1 \<le> t) \<and> sorted_wrt (<) adv
            \<and> (\<forall>a\<in>set adv. -1 < a \<and> (\<forall>t\<in>set clock. t < a)) \<and> n \<le> length adv"
  note v0 = IdWorker_valid [OF assms]
  from h v0(2) have "advancing w0 clock adv"
    by (simp add: advancing_def)
  from get_ids_returns [OF this, of n] h obtain ids w rest where
    run: "get_ids n w0 (clock @ adv) = Some (Inr (ids, w, rest))"
    by blast
  from get_ids_increasing [OF v0(1) run]
  have inc: "sorted_wrt (<) ids" "length ids = n"
    by simp_all
  from inc(1) have "distinct ids"
    by (simp add: strict_sorted_iff)
  with run inc show "\<exists>ids w rest. get_ids n w0 (clock @ adv) = Some (Inr (ids, w, rest))
               \<and> sorted_wrt (<) ids \<and> distinct ids \<and> length ids = n"
    by blast
qed

theorem get_id_strictly_increasing_witness:
  "IdWorker 1 1 0 = Inr \<lparr>worker_id = 1, datacenter_id = 1, sequence = 0, last_timestamp = -1\<rparr>
   \<and> get_ids 4 \<lparr>worker_id = 1, datacenter_id = 1, sequence = 0, last_timestamp = -1\<rparr>
         [1700000000000, 1700000000000, 1700000000001, 1700000000001]
       = Some (Inr ([665865892659236864, 665865892659236865, 665865892660285440, 665865892660285441],
            \<lparr>worker_id = 1, datacenter_id = 1, sequence = 1, last_timestamp = 1700000000001\<rparr>, []))
   \<and> sorted_wrt (<) [665865892659236864, 665865892659236865, 665865892660285440, 665865892660285441 :: int]
   \<and> IdWorker 1 1 4094 = Inr \<lparr>worker_id = 1, datacenter_id = 1, sequence = 4094, last_timestamp = -1\<rparr>
   \<and> get_ids 1 \<lparr>worker_id = 1, datacenter_id = 1, sequence = 4094, last_timestamp = -1\<rparr> [-1, -1, -1, 0, 0]
       = Some (Inr ([- 1116713307341807617],
            \<lparr>worker_id = 1, datacenter_id = 1, sequence = 4095, last_timestamp = -1\<rparr>, [-1, -1, 0, 0]))
   \<and> (\<exists>i w' skipped t clock2.
         get_id \<lparr>worker_id = 1, datacenter_id = 1, sequence = 4095, last_timestamp = -1\<rparr> [-1, -1, 0, 0]
           = Some (Inr (i, w', clock2))
         \<and> [-1, 0, 0] = skipped @ t # clock2
         \<and> -1 < t \<and> last_timestamp w' = t \<and> sequence w' = 0
         \<and> drop_bit TIMESTAMP_LEFT_SHIFT i = t - STARTEPOCH
         \<and> i AND SEQUENCE_MASK = 0)
   \<and> (\<exists>i w'. get_id \<lparr>worker_id = 1, datacenter_id = 1, sequence = 0, last_timestamp = -1\<rparr>
           [1700000000000] = Some (Inr (i, w', [])) \<and> last_timestamp w' = 1700000000000)
   \<and> (\<exists>ids w rest.
         get_ids 5000 \<lparr>worker_id = 1, datacenter_id = 1, sequence = 0, last_timestamp = -1\<rparr>
             (replicate 4097 1700000000000 @ [1700000000001..1700000005000])
           = Some (Inr (ids, w, rest))
         \<and> sorted_wrt (<) ids \<and> distinct ids \<and> length ids = 5000)"
proof -
  let ?w0 = "\<lparr>worker_id = 1, datacenter_id = 1, sequence = 0, last_timestamp = -1\<rparr>"
  let ?v0 = "\<lparr>worker_id = 1, datacenter_id = 1, sequence = 4094, last_timestamp = -1\<rparr>"
  let ?v1 = "\<lparr>worker_id = 1, datacenter_id = 1, sequence = 4095, last_timestamp = -1\<rparr>"
  have a: "IdWorker 1 1 0 = Inr ?w0"
    by code_simp
  have b: "get_ids 4 ?w0 [1700000000000, 1700000000000, 1700000000001, 1700000000001]
       = Some (Inr ([665865892659236864, 665865892659236865, 665865892660285440, 665865892660285441],
            \<lparr>worker_id = 1, datacenter_id = 1, sequence = 1, last_timestamp = 1700000000001\<rparr>, []))"
    by code_simp
  have c: "IdWorker 1 1 4094 = Inr ?v0"
    by code_simp
  have d: "get_ids 1 ?v0 [-1, -1, -1, 0, 0]
       = Some (Inr ([- 1116713307341807617], ?v1, [-1, -1, 0, 0]))"
    by code_simp
  from get_id_strictly_increasing [OF a, THEN conjunct1, rule_format, OF b]
  have 1: "sorted_wrt (<) [665865892659236864, 665865892659236865, 665865892660285440, 665865892660285441 :: int]"
    by blast
  have e: "[-1, -1, 0, 0] = last_timestamp ?v1 # [-1, 0, 0] \<and> (sequence ?v1 + 1) AND SEQUENCE_MASK = 0"
    by code_simp
  have f: "\<not> (\<forall>s\<in>set [-1, 0, 0 :: int]. s \<le> last_timestamp ?v1)"
    by simp
  from get_id_strictly_increasing [OF c, THEN conjunct1, rule_format, OF d]
  have "\<forall>rest. [-1, -1, 0, 0] = last_timestamp ?v1 # rest \<and> (sequence ?v1 + 1) AND SEQUENCE_MASK = 0 \<longrightarrow>
                  (if \<forall>s\<in>set rest. s \<le> last_timestamp ?v1 then get_id ?v1 [-1, -1, 0, 0] = None
                   else \<exists>i w' skipped t clock2.
                      get_id ?v1 [-1, -1, 0, 0] = Some (Inr (i, w', clock2))
                      \<and> rest = skipped @ t # clock2
                      \<and> (\<forall>s\<in>set skipped. s \<le> last_timestamp ?v1)
                      \<and> last_timestamp ?v1 < t \<and> last_timestamp w' = t \<and> sequence w' = 0
                      \<and> drop_bit TIMESTAMP_LEFT_SHIFT i = t - STARTEPOCH
                      \<and> i AND SEQUENCE_MASK = 0)"
    by blast
  from this [rule_format, OF e] f
  have "\<exists>i w' skipped t clock2.
                      get_id ?v1 [-1, -1, 0, 0] = Some (Inr (i, w', clock2))
                      \<and> [-1, 0, 0] = skipped @ t # clock2
                      \<and> (\<forall>s\<in>set skipped. s \<le> last_timestamp ?v1)
                      \<and> last_timestamp ?v1 < t \<and> last_timestamp w' = t \<and> sequence w' = 0
                      \<and> drop_bit TIMESTAMP_LEFT_SHIFT i = t - STARTEPOCH
                      \<and> i AND SEQUENCE_MASK = 0"
    by (simp only: if_False)
  then have 2: "\<exists>i w' skipped t clock2.
         get_id ?v1 [-1, -1, 0, 0] = Some (Inr (i, w', clock2))
         \<and> [-1, 0, 0] = skipped @ t # clock2
         \<and> -1 < t \<and> last_timestamp w' = t \<and> sequence w' = 0
         \<and> drop_bit TIMESTAMP_LEFT_SHIFT i = t - STARTEPOCH
         \<and> i AND SEQUENCE_MASK = 0"
    by simp blast
  have z: "get_ids 0 ?w0 [1700000000000] = Some (Inr ([], ?w0, [1700000000000]))"
    by simp
  have h: "[1700000000000] = 1700000000000 # [] \<and> last_timestamp ?w0 \<le> 1700000000000
                  \<and> (1700000000000 \<noteq> last_timestamp ?w0 \<or> (sequence ?w0 + 1) AND SEQUENCE_MASK \<noteq> 0)"
    by simp
  from get_id_strictly_increasing [OF a, THEN conjunct1, rule_format, OF z, THEN conjunct2,
       THEN conjunct2, THEN conjunct2, THEN conjunct2, rule_format, OF h]
  have 3: "\<exists>i w'. get_id ?w0 [1700000000000] = Some (Inr (i, w', []))
       \<and> last_timestamp w' = 1700000000000" .
  have g: "sorted (replicate 4097 (1700000000000::int))
       \<and> (\<forall>t\<in>set (replicate 4097 (1700000000000::int)). -1 \<le> t)
       \<and> sorted_wrt (<) [1700000000001..1700000005000]
       \<and> (\<forall>a\<in>set [1700000000001..1700000005000]. -1 < a
            \<and> (\<forall>t\<in>set (replicate 4097 (1700000000000::int)). t < a))
       \<and> 5000 \<le> length [1700000000001..1700000005000]"
    by (simp del: upto_rec_numeral)
  from get_id_strictly_increasing [OF a, THEN conjunct2, THEN conjunct2, rule_format, OF g]
  have 4: "\<exists>ids w rest.
         get_ids 5000 ?w0 (replicate 4097 1700000000000 @ [1700000000001..1700000005000])
           = Some (Inr (ids, w, rest))
         \<and> sorted_wrt (<) ids \<and> distinct ids \<and> length ids = 5000" .
  from a b c d 1 2 3 4 show ?thesis
    by (intro conjI)
qed

subsection \<open>ForwardWsConn: connecting\<close>

lemma fail_once_fields [simp]:
  "max_retry (fail_once c) = max_retry c"
  "retry_delay (fail_once c) = retry_delay c"
  "client_close (fail_once c) = client_close c"
  "allow_reconn (fail_once c) = allow_reconn c"
  "effects (fail_once c) =
     effects c @ [Connect, Log WARNING (Retry_warning (retry_delay c)), Sleep (retry_delay c)]"
  by (simp_all add: fail_once_def sleep_def effect_def)

lemma funpow_fail_once_fields [simp]:
  "max_retry ((fail_once ^^ n) c) = max_retry c"
  "retry_delay ((fail_once ^^ n) c) = retry_delay c"
  "client_close ((fail_once ^^ n) c) = client_close c"
  "allow_reconn ((fail_once ^^ n) c) = allow_reconn c"
  by (induction n) simp_all

lemma concat_replicate_commute:
  "concat (replicate n xs) @ xs = xs @ concat (replicate n xs)"
  by (induction n) simp_all

lemma funpow_fail_once_effects:
  "effects ((fail_once ^^ n) c) =
     effects c @ concat (replicate n
       [Connect, Log WARNING (Retry_warning (retry_delay c)), Sleep (retry_delay c)])"
  by (induction n) (simp_all add: concat_replicate_commute)

lemma connect_loop_fail:
  "connect_loop (Suc fuel) opens (Range a stop) c =
     (if a < stop then
        (if opens a then Some (True, effect [Connect] c)
         else connect_loop fuel opens (Range (a + 1) stop) (fail_once c))
      else Some (False, c))"
  "connect_loop (Suc fuel) opens (Count a) c =
     (if opens a then Some (True, effect [Connect] c)
      else connect_loop fuel opens (Count (a + 1)) (fail_once c))"
  by (simp_all add: Let_def fail_once_def effect_def)

lemma connect_loop_range_fails:
  assumes "\<forall>i. a \<le> i \<and> i < a + int n \<longrightarrow> \<not> opens i" and "a + int n \<le> stop"
  shows "connect_loop (n + fuel) opens (Range a stop) c =
         connect_loop fuel opens (Range (a + int n) stop) ((fail_once ^^ n) c)"
  using assms
proof (induction n arbitrary: a c)
  case 0
  then show ?case by simp
next
  case (Suc n)
  from Suc.prems have a: "\<not> opens a" "a < stop"
    by simp_all
  from Suc.prems have "\<forall>i. a + 1 \<le> i \<and> i < a + 1 + int n \<longrightarrow> \<not> opens i" "a + 1 + int n \<le> stop"
    by simp_all
  from Suc.IH [OF this, of "fail_once c"] a show ?case
    by (simp add: connect_loop_fail funpow_swap1 add.assoc del: connect_loop.simps(2))
qed

lemma connect_loop_count_fails:
  assumes "\<forall>i. a \<le> i \<and> i < a + int n \<longrightarrow> \<not> opens i"
  shows "connect_loop (n + fuel) opens (Count a) c =
         connect_loop fuel opens (Count (a + int n)) ((fail_once ^^ n) c)"
  using assms
proof (induction n arbitrary: a c)
  case 0
  then show ?case by simp
next
  case (Suc n)
  from Suc.prems have a: "\<not> opens a"
    by simp
  from Suc.prems have "\<forall>i. a + 1 \<le> i \<and> i < a + 1 + int n \<longrightarrow> \<not> opens i"
    by simp
  from Suc.IH [OF this, of "fail_once c"] a show ?case
    by (simp add: connect_loop_fail funpow_swap1 add.assoc del: connect_loop.simps(2))
qed

lemma connect_loop_count_never_fails:
  "connect_loop fuel opens (Count a) c = Some (flag, c') \<Longrightarrow> flag"
  by (induction fuel arbitrary: a c)
    (auto simp: connect_loop_fail simp del: connect_loop.simps(2) split: if_splits)

lemma connect_loop_count_all_fail:
  "\<forall>i. \<not> opens i \<Longrightarrow> connect_loop fuel opens (Count a) c = None"
  by (induction fuel arbitrary: a c)
    (auto simp: connect_loop_fail simp del: connect_loop.simps(2))

lemma connect_loop_range_flag:
  "connect_loop fuel opens (Range a stop) c = Some (flag, c')
     \<Longrightarrow> flag \<longleftrightarrow> (\<exists>i. a \<le> i \<and> i < stop \<and> opens i)"
proof (induction fuel arbitrary: a c)
  case 0
  then show ?case by simp
next
  case (Suc fuel)
  show ?case
  proof (cases "a < stop")
    case False
    with Suc.prems show ?thesis
      by (auto simp: connect_loop_fail simp del: connect_loop.simps(2))
  next
    case True
    show ?thesis
    proof (cases "opens a")
      case True
      with \<open>a < stop\<close> Suc.prems show ?thesis
        by (auto simp: connect_loop_fail simp del: connect_loop.simps(2))
    next
      case False
      with True Suc.prems
      have "connect_loop fuel opens (Range (a + 1) stop) (fail_once c) = Some (flag, c')"
        by (simp add: connect_loop_fail del: connect_loop.simps(2))
      from Suc.IH [OF this] have "flag \<longleftrightarrow> (\<exists>i. a + 1 \<le> i \<and> i < stop \<and> opens i)" .
      also have "\<dots> \<longleftrightarrow> (\<exists>i. a \<le> i \<and> i < stop \<and> opens i)"
      proof
        assume "\<exists>i. a + 1 \<le> i \<and> i < stop \<and> opens i"
        then obtain i where "a + 1 \<le> i" "i < stop" "opens i" by blast
        then have "a \<le> i \<and> i < stop \<and> opens i" by simp
        then show "\<exists>i. a \<le> i \<and> i < stop \<and> opens i" ..
      next
        assume "\<exists>i. a \<le> i \<and> i < stop \<and> opens i"
        then obtain i where i: "a \<le> i" "i < stop" "opens i" by blast
        with False have "i \<noteq> a" by auto
        with i have "a + 1 \<le> i \<and> i < stop \<and> opens i" by simp
        then show "\<exists>i. a + 1 \<le> i \<and> i < stop \<and> opens i" ..
      qed
      finally show ?thesis .
    qed
  qed
qed

lemma connect_loop_range_returns:
  "nat (stop - a) < fuel \<Longrightarrow> \<exists>r. connect_loop fuel opens (Range a stop) c = Some r"
proof (induction fuel arbitrary: a c)
  case 0
  then show ?case by simp
next
  case (Suc fuel)
  show ?case
  proof (cases "a < stop \<and> \<not> opens a")
    case True
    with Suc.prems have "nat (stop - (a + 1)) < fuel" by linarith
    from Suc.IH [OF this, of "fail_once c"] True show ?thesis
      by (simp add: connect_loop_fail del: connect_loop.simps(2))
  next
    case False
    then show ?thesis
      by (auto simp: connect_loop_fail simp del: connect_loop.simps(2))
  qed
qed


lemma count_list_append: "count_list (xs @ ys) x = count_list xs x + count_list ys x"
  by (induction xs) simp_all

lemma count_connect_failures:
  "count_list (concat (replicate n [Connect, Log WARNING m, Sleep d])) Connect = n"
  by (induction n) simp_all

lemma run_bounded:
  assumes m: "0 \<le> max_retry c" and fuel: "nat (max_retry c) + 1 < fuel"
  shows "\<exists>r. run fuel opens c = Some r"
    and "(\<exists>c'. run fuel opens c = Some (Inl (BotConnectFailed, c')))
          \<longleftrightarrow> (\<forall>i. 0 \<le> i \<and> i \<le> max_retry c \<longrightarrow> \<not> opens i)"
proof -
  let ?c0 = "c\<lparr>client_close := Some Pending\<rparr>"
  let ?it = "Range 0 (max_retry c + 1)"
  from m fuel have "nat (max_retry c + 1 - 0) < fuel"
    by simp
  from connect_loop_range_returns [OF this, of opens ?c0]
  obtain flag c1 where l: "connect_loop fuel opens ?it ?c0 = Some (flag, c1)"
    by (cases "the (connect_loop fuel opens ?it ?c0)") auto
  from connect_loop_range_flag [OF l]
  have f: "flag \<longleftrightarrow> (\<exists>i. 0 \<le> i \<and> i \<le> max_retry c \<and> opens i)"
    by simp
  from m l show "\<exists>r. run fuel opens c = Some r"
    by (simp add: run_def Let_def)
  from m l f show "(\<exists>c'. run fuel opens c = Some (Inl (BotConnectFailed, c')))
          \<longleftrightarrow> (\<forall>i. 0 \<le> i \<and> i \<le> max_retry c \<longrightarrow> \<not> opens i)"
    by (auto simp: run_def Let_def)
qed

lemma run_bounded_all_fail:
  assumes m: "0 \<le> max_retry c" and fuel: "nat (max_retry c) + 1 < fuel"
    and fails: "\<forall>i. \<not> opens i"
  shows "\<exists>c'. run fuel opens c = Some (Inl (BotConnectFailed, c'))
      \<and> effects c' = effects c @ concat (replicate (nat (max_retry c) + 1)
          [Connect, Log WARNING (Retry_warning (retry_delay c)), Sleep (retry_delay c)])
      \<and> count_list (effects c') Connect = count_list (effects c) Connect + nat (max_retry c) + 1"
proof -
  let ?c0 = "c\<lparr>client_close := Some Pending\<rparr>"
  let ?n = "nat (max_retry c) + 1"
  let ?c1 = "(fail_once ^^ ?n) ?c0"
  define f where "f = fuel - ?n - 1"
  from fuel have f: "fuel = ?n + Suc f"
    by (simp add: f_def)
  from m have stop: "0 + int ?n \<le> max_retry c + 1" "0 + int ?n = max_retry c + 1"
    by simp_all
  from fails have "\<forall>i. 0 \<le> i \<and> i < 0 + int ?n \<longrightarrow> \<not> opens i"
    by simp
  from connect_loop_range_fails [OF this stop(1), of "Suc f" ?c0]
  have "connect_loop fuel opens (Range 0 (max_retry c + 1)) ?c0
      = connect_loop (Suc f) opens (Range (max_retry c + 1) (max_retry c + 1)) ?c1"
    by (simp only: f stop(2))
  also have "\<dots> = Some (False, ?c1)"
    by (simp add: connect_loop_fail del: connect_loop.simps(2))
  finally have l: "connect_loop fuel opens (Range 0 (max_retry c + 1)) ?c0 = Some (False, ?c1)" .
  with m have r: "run fuel opens c = Some (Inl (BotConnectFailed, ?c1))"
    by (simp add: run_def Let_def)
  have e: "effects ?c1 = effects c @ concat (replicate ?n
          [Connect, Log WARNING (Retry_warning (retry_delay c)), Sleep (retry_delay c)])"
    by (simp only: funpow_fail_once_effects) simp
  then have "count_list (effects ?c1) Connect = count_list (effects c) Connect + ?n"
    by (simp only: count_list_append count_connect_failures)
  with r e show ?thesis
    by (intro exI [of _ ?c1]) simp
qed

lemma run_unbounded:
  assumes m: "max_retry c < 0"
  shows "run fuel opens c \<noteq> Some (Inl (e, c'))"
    and "\<forall>i. \<not> opens i \<Longrightarrow> run fuel opens c = None"
    and "n < fuel \<Longrightarrow> \<forall>i. 0 \<le> i \<and> i < int n \<longrightarrow> \<not> opens i \<Longrightarrow> opens (int n)
      \<Longrightarrow> \<exists>c'. run fuel opens c = Some (Inr c')
            \<and> count_list (effects c') Connect = count_list (effects c) Connect + n + 1"
proof -
  let ?c0 = "c\<lparr>client_close := Some Pending\<rparr>"
  from m show "run fuel opens c \<noteq> Some (Inl (e, c'))"
    by (auto simp: run_def Let_def split: option.splits dest: connect_loop_count_never_fails)
  from m show "\<forall>i. \<not> opens i \<Longrightarrow> run fuel opens c = None"
    by (simp add: run_def Let_def connect_loop_count_all_fail)
  assume n: "n < fuel" and fails: "\<forall>i. 0 \<le> i \<and> i < int n \<longrightarrow> \<not> opens i" and ok: "opens (int n)"
  let ?c1 = "(fail_once ^^ n) ?c0"
  define f where "f = fuel - n - 1"
  from n have f: "fuel = n + Suc f"
    by (simp add: f_def)
  from fails have "\<forall>i. 0 \<le> i \<and> i < 0 + int n \<longrightarrow> \<not> opens i"
    by simp
  from connect_loop_count_fails [OF this, of "Suc f" ?c0]
  have "connect_loop fuel opens (Count 0) ?c0 = connect_loop (Suc f) opens (Count (int n)) ?c1"
    by (simp only: f) simp
  also from ok have "\<dots> = Some (True, effect [Connect] ?c1)"
    by (simp add: connect_loop_fail del: connect_loop.simps(2))
  finally have l: "connect_loop fuel opens (Count 0) ?c0 = Some (True, effect [Connect] ?c1)" .
  let ?c2 = "effect [Log INFO Connected_info, Task_listen] ((effect [Connect] ?c1)\<lparr>conn_ready := True\<rparr>)"
  from m l have r: "run fuel opens c = Some (Inr ?c2)"
    by (simp add: run_def Let_def)
  have "effects ?c2 = effects c @ concat (replicate n
          [Connect, Log WARNING (Retry_warning (retry_delay c)), Sleep (retry_delay c)])
          @ [Connect, Log INFO Connected_info, Task_listen]"
    by (simp add: effect_def funpow_fail_once_effects)
  then have "count_list (effects ?c2) Connect = count_list (effects c) Connect + n + 1"
    by (simp only: count_list_append count_connect_failures) simp
  with r show "\<exists>c'. run fuel opens c = Some (Inr c')
            \<and> count_list (effects c') Connect = count_list (effects c) Connect + n + 1"
    by (intro exI [of _ ?c2]) simp
qed

text \<open>
  C1: with \<open>max_retry \<ge> 0\<close> (and fuel for the whole loop) \<open>_run\<close> returns, and it raises
  \<open>BotConnectFailed\<close> if and only if every one of the \<open>max_retry + 1\<close> attempts fails.
  Against an endpoint whose open always fails it makes exactly \<open>max_retry + 1\<close> attempts,
  each failed attempt followed by a sleep of \<open>retry_delay\<close> (so there is a sleep between any
  two consecutive attempts, and one after the last), and then raises \<open>BotConnectFailed\<close>.
  With \<open>max_retry < 0\<close> it never raises: against an endpoint that always fails it never
  returns, and when the first \<open>n\<close> attempts fail and the next succeeds, for any \<open>n\<close>, it
  connects after \<open>n + 1\<close> attempts.
\<close>

theorem connect_retry_budget:
  "(0 \<le> max_retry c \<and> nat (max_retry c) + 1 < fuel \<longrightarrow>
      (\<exists>r. run fuel opens c = Some r)
      \<and> ((\<exists>c'. run fuel opens c = Some (Inl (BotConnectFailed, c')))
            \<longleftrightarrow> (\<forall>i. 0 \<le> i \<and> i \<le> max_retry c \<longrightarrow> \<not> opens i))
      \<and> ((\<forall>i. \<not> opens i) \<longrightarrow>
            (\<exists>c'. run fuel opens c = Some (Inl (BotConnectFailed, c'))
               \<and> effects c' = effects c @ concat (replicate (nat (max_retry c) + 1)
                   [Connect, Log WARNING (Retry_warning (retry_delay c)), Sleep (retry_delay c)])
               \<and> count_list (effects c') Connect
                    = count_list (effects c) Connect + nat (max_retry c) + 1)))
   \<and> (max_retry c < 0 \<longrightarrow>
        (\<forall>e c'. run fuel opens c \<noteq> Some (Inl (e, c')))
        \<and> ((\<forall>i. \<not> opens i) \<longrightarrow> run fuel opens c = None)
        \<and> (\<forall>n. n < fuel \<and> (\<forall>i. 0 \<le> i \<and> i < int n \<longrightarrow> \<not> opens i) \<and> opens (int n) \<longrightarrow>
              (\<exists>c'. run fuel opens c = Some (Inr c')
                 \<and> count_list (effects c') Connect = count_list (effects c) Connect + n + 1)))"
proof (intro conjI impI allI)
  assume a: "0 \<le> max_retry c \<and> nat (max_retry c) + 1 < fuel"
  then show "\<exists>r. run fuel opens c = Some r"
    by (intro run_bounded(1)) simp_all
  from a show "(\<exists>c'. run fuel opens c = Some (Inl (BotConnectFailed, c')))
            \<longleftrightarrow> (\<forall>i. 0 \<le> i \<and> i \<le> max_retry c \<longrightarrow> \<not> opens i)"
    by (intro run_bounded(2)) simp_all
  assume "\<forall>i. \<not> opens i"
  with a show "\<exists>c'. run fuel opens c = Some (Inl (BotConnectFailed, c'))
               \<and> effects c' = effects c @ concat (replicate (nat (max_retry c) + 1)
                   [Connect, Log WARNING (Retry_warning (retry_delay c)), Sleep (retry_delay c)])
               \<and> count_list (effects c') Connect
                    = count_list (effects c) Connect + nat (max_retry c) + 1"
    by (intro run_bounded_all_fail) simp_all
next
  fix e c'
  assume "max_retry c < 0"
  then show "run fuel opens c \<noteq> Some (Inl (e, c'))"
    by (rule run_unbounded(1))
next
  assume "max_retry c < 0" "\<forall>i. \<not> opens i"
  then show "run fuel opens c = None"
    by (rule run_unbounded(2))
next
  fix n
  assume "max_retry c < 0"
    and "n < fuel \<and> (\<forall>i. 0 \<le> i \<and> i < int n \<longrightarrow> \<not> opens i) \<and> opens (int n)"
  then show "\<exists>c'. run fuel opens c = Some (Inr c')
                 \<and> count_list (effects c') Connect = count_list (effects c) Connect + n + 1"
    by (intro run_unbounded(3)) simp_all
qed


theorem connect_retry_budget_witness:
  "(\<exists>c'. run 4 (\<lambda>_. False) (ForwardWsConn 2 4 (1 / 5) False INFO False True 100 :: (nat, nat) ws_conn)
           = Some (Inl (BotConnectFailed, c'))
         \<and> effects c' = [Connect, Log WARNING (Retry_warning 4), Sleep 4,
                          Connect, Log WARNING (Retry_warning 4), Sleep 4,
                          Connect, Log WARNING (Retry_warning 4), Sleep 4]
         \<and> count_list (effects c') Connect = 3)
   \<and> run 7 (\<lambda>_. False) (ForwardWsConn (- 1) 4 (1 / 5) False INFO False True 100 :: (nat, nat) ws_conn) = None
   \<and> (\<exists>c'. run 7 (\<lambda>i. i = 2) (ForwardWsConn (- 1) 4 (1 / 5) False INFO False True 100 :: (nat, nat) ws_conn)
           = Some (Inr c')
         \<and> count_list (effects c') Connect = 3)"
proof -
  let ?b = "ForwardWsConn 2 4 (1 / 5) False INFO False True 100 :: (nat, nat) ws_conn"
  let ?u = "ForwardWsConn (- 1) 4 (1 / 5) False INFO False True 100 :: (nat, nat) ws_conn"
  have b: "max_retry ?b = 2" "retry_delay ?b = 4" "effects ?b = []"
    and u: "max_retry ?u = - 1" "effects ?u = []"
    by (simp_all add: ForwardWsConn_def)
  have r3: "replicate 3 x = [x, x, x]" for x :: "(nat, nat) effect list"
    by (simp add: numeral_3_eq_3)
  from connect_retry_budget [of ?b 4 "\<lambda>_. False"]
  have 1: "\<exists>c'. run 4 (\<lambda>_. False) ?b = Some (Inl (BotConnectFailed, c'))
         \<and> effects c' = [Connect, Log WARNING (Retry_warning 4), Sleep 4,
                          Connect, Log WARNING (Retry_warning 4), Sleep 4,
                          Connect, Log WARNING (Retry_warning 4), Sleep 4]
         \<and> count_list (effects c') Connect = 3"
    by (simp add: b r3) (simp add: numeral_3_eq_3)
  from connect_retry_budget [of ?u 7 "\<lambda>_. False"]
  have 2: "run 7 (\<lambda>_. False) ?u = None"
    by (simp add: u)
  from connect_retry_budget [of ?u 7 "\<lambda>i. i = 2", THEN conjunct2, rule_format, THEN conjunct2,
      THEN conjunct2, rule_format, of 2]
  have 3: "\<exists>c'. run 7 (\<lambda>i. i = 2) ?u = Some (Inr c') \<and> count_list (effects c') Connect = 3"
    by (simp add: u) (simp add: numeral_3_eq_3)
  from 1 2 3 show ?thesis
    by (intro conjI)
qed

subsection \<open>ForwardWsConn: closing\<close>

lemma close_done:
  assumes "client_close c = Some f" "future_done f"
  shows "close c = Inr c"
  using assms by (simp add: close_def)

lemma close_result:
  assumes "close c = Inr c'"
  shows "\<exists>f. client_close c' = Some f \<and> future_done f"
  using assms
  by (auto simp: close_def future_done_def split: option.splits if_splits)

lemma close_pending:
  assumes "client_close c = Some Pending"
  shows "close c = Inr (c\<lparr>allow_reconn := False, client_close := Some Finished\<rparr>)"
  using assms by (simp add: close_def future_done_def)

lemma conn_connected_reached:
  "run 1 (\<lambda>i. True) (ForwardWsConn 2 4 (1 / 5) True INFO False True 100) = Some (Inr conn_connected)"
  by (simp add: run_def conn_connected_def ForwardWsConn_def effect_def Let_def)

text \<open>
  C5: \<open>_close\<close> called when the close future is already done returns without an error and
  leaves the connector exactly as it was: the reconnect flag, the future and the effects
  are untouched, so nothing is torn down twice. In particular a second \<open>_close\<close> right
  after a first one that returned changes nothing.
\<close>

theorem close_idempotent:
  "(client_close c = Some f \<and> future_done f \<longrightarrow> close c = Inr c)
   \<and> (close c = Inr c' \<longrightarrow> close c' = Inr c')"
proof (intro conjI impI)
  assume "client_close c = Some f \<and> future_done f"
  then show "close c = Inr c"
    by (simp add: close_done)
next
  assume "close c = Inr c'"
  from close_result [OF this] obtain g where "client_close c' = Some g" "future_done g"
    by blast
  then show "close c' = Inr c'"
    by (rule close_done)
qed

theorem close_idempotent_witness:
  "run 1 (\<lambda>i. True) (ForwardWsConn 2 4 (1 / 5) True INFO False True 100) = Some (Inr conn_connected)
   \<and> close conn_connected = Inr (conn_connected\<lparr>allow_reconn := False, client_close := Some Finished\<rparr>)
   \<and> close (conn_connected\<lparr>allow_reconn := False, client_close := Some Finished\<rparr>)
       = Inr (conn_connected\<lparr>allow_reconn := False, client_close := Some Finished\<rparr>)"
proof -
  let ?c = "conn_connected\<lparr>allow_reconn := False, client_close := Some Finished\<rparr>"
  have p: "client_close conn_connected = Some Pending"
    by (simp add: conn_connected_def effect_def)
  have 1: "close conn_connected = Inr ?c"
    by (rule close_pending [OF p])
  from close_idempotent [of conn_connected Pending ?c] 1 have "close ?c = Inr ?c"
    by blast
  with 1 conn_connected_reached show ?thesis
    by blast
qed

lemma terminal_close:
  assumes "terminal c"
  shows "close c = Inr c"
  using assms by (auto simp: terminal_def close_def split: option.splits)

lemma terminal_listen_finally:
  assumes "terminal c"
  shows "listen_finally c = Inr c"
  using assms by (auto simp: terminal_def listen_finally_def split: option.splits)

lemma terminal_effect [simp]: "terminal (effect es c) = terminal c"
  by (simp add: terminal_def effect_def)

lemma terminal_listen_exit:
  assumes "terminal c"
  shows "listen_exit ex c =
    Inr (effect [Log DEBUG (case ex of Exit_cancelled \<Rightarrow> Listen_stopped | Exit_closed \<Rightarrow> Listen_closed)] c)"
  using assms by (cases ex) (simp_all add: listen_exit_def terminal_listen_finally)


lemma quiet_refl: "terminal c \<Longrightarrow> quiet c c"
  by (simp add: quiet_def)

lemma quiet_trans: "quiet a b \<Longrightarrow> quiet b c \<Longrightarrow> quiet a c"
  by (simp add: quiet_def)

lemma quiet_log: "terminal c \<Longrightarrow> quiet c (effect [Log l m] c)"
  by (simp add: quiet_def) (simp add: effect_def count_list_append)

lemma listen_except_quiet:
  assumes "terminal c" "listen_except e raw c = (x, c')"
  shows "quiet c c'"
  using assms
  by (auto simp: listen_except_def quiet_def split: if_splits)
     (simp_all add: effect_def count_list_append)

lemma listen_body_quiet:
  assumes "terminal c" "listen_body build is_resp_event raw c = (x, c')"
  shows "quiet c c'"
proof (cases "build raw")
  case (Inl e)
  with assms show ?thesis
    by (simp add: listen_body_def listen_except_quiet)
next
  case (Inr event)
  define c1 where "c1 = (if logger_level c = DEBUG then effect [Log DEBUG (Built event)] c else c)"
  from assms(1) have q1: "quiet c c1" and t1: "terminal c1"
    by (simp_all add: c1_def quiet_log quiet_refl)
  show ?thesis
  proof (cases "is_resp_event event")
    case (Inl e)
    with assms(2) Inr have "listen_except e raw c1 = (x, c')"
      by (simp add: listen_body_def c1_def)
    from listen_except_quiet [OF t1 this] q1 show ?thesis
      by (rule quiet_trans [rotated])
  next
    case (Inr is_resp)
    with assms(2) \<open>build raw = Inr event\<close>
    have "c' = effect [Task_respond event] c1 \<or> c' = effect [Task_dispatch event] c1"
      by (auto simp: listen_body_def c1_def Let_def split: if_splits)
    with t1 have "quiet c1 c'"
      by (auto simp: quiet_def) (simp_all add: effect_def count_list_append)
    with q1 show ?thesis
      by (rule quiet_trans)
  qed
qed

lemma listen_loop_quiet:
  assumes "terminal c" "listen_loop build is_resp_event rs c = (x, c')"
  shows "quiet c c'"
  using assms
proof (induction build is_resp_event rs c rule: listen_loop.induct)
  case (1 build is_resp_event c)
  then show ?case by (simp add: quiet_refl)
next
  case (2 build is_resp_event rs c)
  then show ?case by (simp add: quiet_refl)
next
  case (3 build is_resp_event rs c)
  then show ?case by (simp add: quiet_refl)
next
  case (4 build is_resp_event raw_event rs c)
  define c1 where "c1 = effect [Log DEBUG (Received raw_event)] c"
  from "4.prems"(1) have q1: "quiet c c1" and t1: "terminal c1"
    by (simp_all add: c1_def quiet_log)
  show ?case
  proof (cases "raw_event = []")
    case True
    with "4.prems"(2) have "listen_loop build is_resp_event rs c1 = (x, c')"
      by (simp add: c1_def)
    from "4.IH"(1) [OF c1_def True t1 this] q1 show ?thesis
      by (rule quiet_trans [rotated])
  next
    case False
    obtain y c2 where b: "listen_body build is_resp_event raw_event c1 = (y, c2)"
      by (cases "listen_body build is_resp_event raw_event c1")
    from listen_body_quiet [OF t1 b] have q2: "quiet c1 c2" .
    then have t2: "terminal c2" by (simp add: quiet_def)
    show ?thesis
    proof (cases y)
      case None
      with "4.prems"(2) False b have "listen_loop build is_resp_event rs c2 = (x, c')"
        by (simp add: c1_def)
      from "4.IH"(2) [OF c1_def False b [symmetric] None t2 this]
      have "quiet c2 c'" .
      with q1 q2 show ?thesis
        by (blast intro: quiet_trans)
    next
      case (Some ex)
      with "4.prems"(2) False b have "c' = c2"
        by (simp add: c1_def)
      with q1 q2 show ?thesis
        by (blast intro: quiet_trans)
    qed
  qed
qed

lemma listen_exit_quiet:
  assumes "terminal c"
  shows "\<exists>c'. listen_exit ex c = Inr c' \<and> quiet c c'"
  using assms
  by (simp add: terminal_listen_exit quiet_log)

lemma listen_quiet:
  assumes "terminal c" "listen build is_resp_event rs c = Some r"
  shows "\<exists>c'. r = Inr c' \<and> quiet c c'"
proof -
  define c1 where "c1 = (if \<not> reconn_flag c
                   then effect [Emit FIRST_CONNECTED, Log DEBUG First_connected_done] c
                   else effect [Emit RECONNECTED, Log DEBUG Reconnected_done] c)"
  from assms(1) have t1: "terminal c1"
    by (simp add: c1_def)
  from assms(1) have q1: "quiet c c1"
    by (simp add: quiet_def c1_def) (simp add: effect_def count_list_append)
  from assms(2) obtain ex c2 where
    l: "listen_loop build is_resp_event rs c1 = (Some ex, c2)" and r: "r = listen_exit ex c2"
    by (auto simp: listen_def Let_def c1_def split: if_splits prod.splits option.splits)
  from listen_loop_quiet [OF t1 l] have q2: "quiet c1 c2" .
  then have "terminal c2" by (simp add: quiet_def)
  from listen_exit_quiet [OF this, of ex] obtain c' where "listen_exit ex c2 = Inr c'" "quiet c2 c'"
    by blast
  with r q1 q2 show ?thesis
    by (blast intro: quiet_trans)
qed

subsection \<open>ForwardWsConn: the receive loop\<close>










subsection \<open>ForwardWsConn: the sender loop\<close>

lemma watch_round_ok:
  assumes "ready_signal c" "conn_ready c" "send_queue c = action # q" "send_ok env"
    and w: "w = cd_time c - (now c + hook_time env - pre_send_time c)"
    and t1: "t1 = now c + hook_time env + max w 0 + sleep_extra env"
    and t2: "t2 = t1 + send_time env"
  shows "watch_round env c =
    Some (None, c\<lparr>send_queue := q, now := t2, pre_send_time := t2,
      effects := effects c
        @ (if logger_level c = DEBUG then [Log DEBUG (Presend_struct action)] else [])
        @ [Emit (ACTION_PRESEND action), Log DEBUG (Presend_done action),
           Log DEBUG (Cooldown_wait action w), Sleep w,
           Conn_send action t1 t2, Log DEBUG (Sent action)]\<rparr>)"
  using assms(1-4) unfolding w t1 t2
  by (simp add: watch_round_def Let_def effect_def sleep_def)

lemma watch_round_closed:
  assumes "ready_signal c" "conn_ready c" "send_queue c = action # q" "\<not> send_ok env"
    and w: "w = cd_time c - (now c + hook_time env - pre_send_time c)"
  shows "watch_round env c =
    Some (Some Exit_closed, c\<lparr>send_queue := q,
      now := now c + hook_time env + max w 0 + sleep_extra env,
      effects := effects c
        @ (if logger_level c = DEBUG then [Log DEBUG (Presend_struct action)] else [])
        @ [Emit (ACTION_PRESEND action), Log DEBUG (Presend_done action),
           Log DEBUG (Cooldown_wait action w), Sleep w, Log ERROR Watch_closed]\<rparr>)"
  using assms(1-4) unfolding w
  by (simp add: watch_round_def Let_def effect_def sleep_def)

lemma sent_append: "sent (xs @ ys) = sent xs @ sent ys"
  by (induction xs rule: sent.induct) simp_all

lemma watch_round_cases:
  assumes "watch_round env c = Some (x, c')"
  obtains (ok) action q t1 t2 where
      "x = None" "send_queue c = action # q" "send_queue c' = q"
      "sent (effects c') = sent (effects c) @ [(action, t1, t2)]"
      "pre_send_time c' = t2" "t2 = t1 + send_time env"
      "pre_send_time c + cd_time c + sleep_extra env \<le> t1"
      "cd_time c' = cd_time c" "ready_signal c' = ready_signal c" "conn_ready c' = conn_ready c"
      "slack c' = slack c"
  | (closed) action q where
      "x = Some Exit_closed" "send_queue c = action # q" "send_queue c' = q"
      "sent (effects c') = sent (effects c)"
      "pre_send_time c' = pre_send_time c"
      "cd_time c' = cd_time c" "ready_signal c' = ready_signal c" "conn_ready c' = conn_ready c"
      "slack c' = slack c"
proof -
  from assms obtain action q where r: "ready_signal c" "conn_ready c" "send_queue c = action # q"
    by (auto simp: watch_round_def split: if_splits list.splits)
  show ?thesis
  proof (cases "send_ok env")
    case True
    define w where "w = cd_time c - (now c + hook_time env - pre_send_time c)"
    define t1 where "t1 = now c + hook_time env + max w 0 + sleep_extra env"
    define t2 where "t2 = t1 + send_time env"
    from watch_round_ok [OF r True w_def t1_def t2_def] assms
    have x: "x = None" and c': "c' = c\<lparr>send_queue := q, now := t2, pre_send_time := t2,
      effects := effects c
        @ (if logger_level c = DEBUG then [Log DEBUG (Presend_struct action)] else [])
        @ [Emit (ACTION_PRESEND action), Log DEBUG (Presend_done action),
           Log DEBUG (Cooldown_wait action w), Sleep w,
           Conn_send action t1 t2, Log DEBUG (Sent action)]\<rparr>"
      by simp_all
    have "pre_send_time c + cd_time c + sleep_extra env \<le> t1"
      unfolding t1_def w_def by (simp add: max_def)
    moreover from c' have "sent (effects c') = sent (effects c) @ [(action, t1, t2)]"
      by (simp add: sent_append)
    ultimately show ?thesis
      using x c' r(3) t2_def by (intro ok [of action q t1 t2]) simp_all
  next
    case False
    from watch_round_closed [OF r False refl] assms
    have "x = Some Exit_closed" and "sent (effects c') = sent (effects c)"
      and "send_queue c' = q" "pre_send_time c' = pre_send_time c"
      "cd_time c' = cd_time c" "ready_signal c' = ready_signal c" "conn_ready c' = conn_ready c"
      "slack c' = slack c"
      by (auto simp: sent_append)
    with r(3) show ?thesis
      by (intro closed [of action q]) simp_all
  qed
qed


lemma send_open:
  assumes "ready_signal c" "conn_ready c" "\<not> slack c"
  shows "send action c =
    Some (c\<lparr>send_queue := send_queue c @ [action],
            effects := effects c @ [Log DEBUG (Queued action)]\<rparr>)"
  using assms by (simp add: send_def effect_def)

lemma send_sent:
  assumes "send action c = Some c'"
  shows "sent (effects c') = sent (effects c)" "pre_send_time c' = pre_send_time c"
    "cd_time c' = cd_time c"
  using assms by (auto simp: send_def effect_def sent_append split: if_splits)

lemma steady_cong:
  assumes "steady c" "sent (effects c') = sent (effects c)"
    "pre_send_time c' = pre_send_time c" "cd_time c' = cd_time c"
  shows "steady c'"
  using assms by (simp add: steady_def)

lemma run_sched_dead:
  assumes "run_sched es (False, c) = (alive, c')"
  shows "\<not> alive \<and> sent (effects c') = sent (effects c)
     \<and> pre_send_time c' = pre_send_time c \<and> cd_time c' = cd_time c"
  using assms
proof (induction es arbitrary: c)
  case Nil
  then show ?case by simp
next
  case (Cons e es)
  show ?case
  proof (cases e)
    case (Submit action)
    show ?thesis
    proof (cases "send action c")
      case None
      with Cons.prems Submit have "run_sched es (False, c) = (alive, c')"
        by simp
      from Cons.IH [OF this] show ?thesis .
    next
      case (Some c1)
      with Cons.prems Submit have "run_sched es (False, c1) = (alive, c')"
        by simp
      from Cons.IH [OF this] send_sent [OF Some] show ?thesis
        by simp
    qed
  next
    case (Round env)
    with Cons.prems have "run_sched es (False, c) = (alive, c')"
      by simp
    from Cons.IH [OF this] show ?thesis .
  next
    case (Elapse d)
    with Cons.prems have "run_sched es (False, c\<lparr>now := now c + d\<rparr>) = (alive, c')"
      by simp
    from Cons.IH [OF this] show ?thesis
      by simp
  qed
qed

lemma steady_snoc:
  assumes st: "steady c"
    and sent': "sent (effects c') = sent (effects c) @ [(action, t1, t2)]"
    and pre: "pre_send_time c' = t2" and le: "t1 \<le> t2"
    and gap: "pre_send_time c + cd_time c \<le> t1"
    and cd: "cd_time c' = cd_time c"
  shows "steady c'"
proof -
  let ?xs = "sent (effects c)"
  let ?ys = "?xs @ [(action, t1, t2)]"
  from st have sp: "spaced (cd_time c) ?xs"
    and ord: "\<forall>x\<in>set ?xs. fst (snd x) \<le> snd (snd x)"
    and lst: "?xs \<noteq> [] \<longrightarrow> pre_send_time c = snd (snd (last ?xs))"
    by (simp_all add: steady_def)
  have "spaced (cd_time c) ?ys"
    unfolding spaced_def
  proof (intro allI impI)
    fix i
    assume i: "Suc i < length ?ys"
    show "cd_time c \<le> fst (snd (?ys ! Suc i)) - snd (snd (?ys ! i))
        \<and> cd_time c \<le> fst (snd (?ys ! Suc i)) - fst (snd (?ys ! i))"
    proof (cases "Suc i < length ?xs")
      case True
      with sp show ?thesis
        by (simp add: spaced_def nth_append)
    next
      case False
      with i have n: "Suc i = length ?xs"
        by simp
      then have ne: "?xs \<noteq> []" and i': "i = length ?xs - 1"
        by auto
      from ne have l: "?xs ! i = last ?xs"
        unfolding i' by (simp add: last_conv_nth)
      from n have y: "?ys ! Suc i = (action, t1, t2)" "?ys ! i = last ?xs"
        using l by (simp_all add: nth_append)
      from ne lst have p: "pre_send_time c = snd (snd (last ?xs))"
        by simp
      from ne ord have "fst (snd (last ?xs)) \<le> snd (snd (last ?xs))"
        by simp
      with p gap show ?thesis
        by (simp add: y)
    qed
  qed
  moreover from ord le have "\<forall>x\<in>set ?ys. fst (snd x) \<le> snd (snd x)"
    by simp
  ultimately show ?thesis
    using sent' pre cd by (simp add: steady_def)
qed

lemma run_sched_fifo:
  assumes "ready_signal c" "conn_ready c" "\<not> slack c"
    and "\<forall>e\<in>set es. timely e" and "steady c"
    and "run_sched es (alive, c) = (alive', c')"
  shows "prefix (map fst (sent (effects c')))
           (map fst (sent (effects c)) @ send_queue c @ submitted es)
     \<and> (alive' \<longrightarrow> map fst (sent (effects c')) @ send_queue c'
           = map fst (sent (effects c)) @ send_queue c @ submitted es)
     \<and> steady c' \<and> cd_time c' = cd_time c"
  using assms
proof (induction es arbitrary: c alive)
  case Nil
  then show ?case by simp
next
  case (Cons e es)
  from Cons.prems(4) have tl: "\<forall>e\<in>set es. timely e" and hd: "timely e"
    by simp_all
  show ?case
  proof (cases e)
    case (Submit action)
    let ?c1 = "c\<lparr>send_queue := send_queue c @ [action],
            effects := effects c @ [Log DEBUG (Queued action)]\<rparr>"
    note s = send_open [OF Cons.prems(1-3), of action]
    from Cons.prems(6) Submit s have r: "run_sched es (alive, ?c1) = (alive', c')"
      by simp
    from Cons.prems(5) have st: "steady ?c1"
      by (rule steady_cong) (simp_all add: sent_append)
    from Cons.IH [OF _ _ _ tl st r] Cons.prems(1-3) Submit show ?thesis
      by (simp add: sent_append)
  next
    case (Elapse d)
    let ?c1 = "c\<lparr>now := now c + d\<rparr>"
    from Cons.prems(6) Elapse have r: "run_sched es (alive, ?c1) = (alive', c')"
      by simp
    from Cons.prems(5) have st: "steady ?c1"
      by (rule steady_cong) simp_all
    from Cons.IH [OF _ _ _ tl st r] Cons.prems(1-3) Elapse show ?thesis
      by simp
  next
    case (Round env)
    show ?thesis
    proof (cases "alive \<and> watch_round env c \<noteq> None")
      case False
      with Cons.prems(6) Round have r: "run_sched es (alive, c) = (alive', c')"
        by (cases "watch_round env c") (auto split: if_splits)
      from Cons.IH [OF Cons.prems(1-3) tl Cons.prems(5) r] Round show ?thesis
        by simp
    next
      case True
      then obtain x c1 where w: "watch_round env c = Some (x, c1)"
        by (cases "watch_round env c") auto
      from w show ?thesis
      proof (cases rule: watch_round_cases)
        case (ok action q t1 t2)
        from True w ok(1) Cons.prems(6) Round have r: "run_sched es (True, c1) = (alive', c')"
          by simp
        from hd Round ok(6,7) have "t1 \<le> t2" "pre_send_time c + cd_time c \<le> t1"
          by simp_all
        with Cons.prems(5) ok(4,5,8) have st: "steady c1"
          by (intro steady_snoc [of c c1 action t1 t2]) simp_all
        from ok(9-11) Cons.prems(1-3) have f: "ready_signal c1" "conn_ready c1" "\<not> slack c1"
          by simp_all
        from Cons.IH [OF f tl st r] ok(2,3,4,8) Round show ?thesis
          by simp
      next
        case (closed action q)
        from True w closed(1) Cons.prems(6) Round have r: "run_sched es (False, c1) = (alive', c')"
          by simp
        from run_sched_dead [OF r] closed(4,5,6)
        have d: "\<not> alive'" "sent (effects c') = sent (effects c)"
          "pre_send_time c' = pre_send_time c" "cd_time c' = cd_time c"
          by simp_all
        from Cons.prems(5) d(2-4) have "steady c'"
          by (rule steady_cong)
        with d show ?thesis
          by simp
      qed
    qed
  qed
qed


lemma example_sched_run:
  "fst (run_sched example_sched (True, conn_connected)) = True"
  "sent (effects (snd (run_sched example_sched (True, conn_connected))))
     = [(1, 101, 10101 / 100), (2, 10121 / 100, 5061 / 50)]"
  "send_queue (snd (run_sched example_sched (True, conn_connected))) = [3]"
  "pre_send_time (snd (run_sched example_sched (True, conn_connected))) = 5061 / 50"
  by (simp_all add: example_sched_def slow_hook_def fast_hook_def conn_connected_def
      ForwardWsConn_def send_def watch_round_def effect_def sleep_def Let_def)

lemma watch_round_exit:
  assumes "watch_round env c = Some (Some ex, c')"
  shows "\<not> send_ok env"
  using assms by (auto simp: watch_round_def Let_def split: if_splits list.splits)

lemma run_sched_flags:
  assumes "run_sched es (alive, c) = (alive', c')"
  shows "ready_signal c' = ready_signal c \<and> conn_ready c' = conn_ready c \<and> slack c' = slack c"
  using assms
proof (induction es arbitrary: c alive)
  case Nil
  then show ?case by simp
next
  case (Cons e es)
  show ?case
  proof (cases e)
    case (Submit action)
    define c1 where "c1 = (case send action c of None \<Rightarrow> c | Some c' \<Rightarrow> c')"
    have f: "ready_signal c1 = ready_signal c \<and> conn_ready c1 = conn_ready c \<and> slack c1 = slack c"
      by (simp add: c1_def send_def effect_def)
    from Cons.prems Submit have "run_sched es (alive, c1) = (alive', c')"
      by (simp add: c1_def)
    from Cons.IH [OF this] f show ?thesis
      by simp
  next
    case (Elapse d)
    with Cons.prems have "run_sched es (alive, c\<lparr>now := now c + d\<rparr>) = (alive', c')"
      by simp
    from Cons.IH [OF this] show ?thesis
      by simp
  next
    case (Round env)
    show ?thesis
    proof (cases "alive \<and> watch_round env c \<noteq> None")
      case False
      with Cons.prems Round have r: "run_sched es (alive, c) = (alive', c')"
        by (cases "watch_round env c") (auto split: if_splits)
      from Cons.IH [OF r] show ?thesis .
    next
      case True
      then obtain x c1 where w: "watch_round env c = Some (x, c1)"
        by (cases "watch_round env c") auto
      from w have f: "ready_signal c1 = ready_signal c \<and> conn_ready c1 = conn_ready c \<and> slack c1 = slack c"
        by (cases rule: watch_round_cases) simp_all
      from True w Cons.prems Round have "run_sched es (x = None, c1) = (alive', c')"
        by (cases x) simp_all
      from Cons.IH [OF this] f show ?thesis
        by simp
    qed
  qed
qed

lemma run_sched_alive:
  assumes "\<forall>e\<in>set es. succeeds e" and "run_sched es (True, c) = (alive', c')"
  shows "alive'"
  using assms
proof (induction es arbitrary: c)
  case Nil
  then show ?case by simp
next
  case (Cons e es)
  from Cons.prems(1) have tl: "\<forall>e\<in>set es. succeeds e" and hd: "succeeds e"
    by simp_all
  show ?case
  proof (cases e)
    case (Submit action)
    with Cons.prems(2)
    have "run_sched es (True, case send action c of None \<Rightarrow> c | Some c' \<Rightarrow> c') = (alive', c')"
      by simp
    from Cons.IH [OF tl this] show ?thesis .
  next
    case (Elapse d)
    with Cons.prems(2) have "run_sched es (True, c\<lparr>now := now c + d\<rparr>) = (alive', c')"
      by simp
    from Cons.IH [OF tl this] show ?thesis .
  next
    case (Round env)
    with hd have ok: "send_ok env"
      by simp
    show ?thesis
    proof (cases "watch_round env c")
      case None
      with Cons.prems(2) Round have "run_sched es (True, c) = (alive', c')"
        by simp
      from Cons.IH [OF tl this] show ?thesis .
    next
      case (Some p)
      obtain x c1 where p: "p = (x, c1)"
        by (cases p)
      with Some ok watch_round_exit [of env c _ c1] have x: "x = None"
        by (cases x) auto
      with Some p Cons.prems(2) Round have "run_sched es (True, c1) = (alive', c')"
        by simp
      from Cons.IH [OF tl this] show ?thesis .
    qed
  qed
qed

lemma round_transmits:
  assumes "ready_signal c" "conn_ready c" "send_queue c = action # q" "send_ok env"
  shows "\<exists>c' t1. watch_round env c = Some (None, c')
      \<and> sent (effects c') = sent (effects c) @ [(action, t1, t1 + send_time env)]
      \<and> send_queue c' = q \<and> ready_signal c' \<and> conn_ready c'"
proof -
  define w where "w = cd_time c - (now c + hook_time env - pre_send_time c)"
  define t1 where "t1 = now c + hook_time env + max w 0 + sleep_extra env"
  note r = watch_round_ok [OF assms w_def t1_def refl]
  show ?thesis
    unfolding r using assms(1,2) by (simp add: sent_append)
qed

lemma run_sched_drain:
  assumes "ready_signal c" "conn_ready c"
    and "length envs = length (send_queue c)" "\<forall>env\<in>set envs. send_ok env"
  shows "\<exists>c'. run_sched (map Round envs) (True, c) = (True, c')
      \<and> map fst (sent (effects c')) = map fst (sent (effects c)) @ send_queue c
      \<and> send_queue c' = []"
  using assms
proof (induction envs arbitrary: c)
  case Nil
  then show ?case by simp
next
  case (Cons env envs)
  from Cons.prems(3) obtain action q where q: "send_queue c = action # q"
    by (cases "send_queue c") auto
  from Cons.prems(4) have ok: "send_ok env" and tl: "\<forall>env\<in>set envs. send_ok env"
    by simp_all
  from round_transmits [OF Cons.prems(1,2) q ok] obtain c1 t1 where
    w: "watch_round env c = Some (None, c1)"
    and s: "sent (effects c1) = sent (effects c) @ [(action, t1, t1 + send_time env)]"
    and f: "send_queue c1 = q" "ready_signal c1" "conn_ready c1"
    by blast
  from Cons.prems(3) q f(1) have len: "length envs = length (send_queue c1)"
    by simp
  from Cons.IH [OF f(2,3) len tl] obtain c' where
    "run_sched (map Round envs) (True, c1) = (True, c')"
    "map fst (sent (effects c')) = map fst (sent (effects c1)) @ send_queue c1"
    "send_queue c' = []"
    by blast
  with w s f(1) q show ?case
    by simp
qed

text \<open>
  C2: while the connector is ready and not in slack mode, and nothing was transmitted
  before, after any schedule of submissions and sender rounds the transmitted actions are
  a prefix of the submitted ones, in the order of submission (and with the loop still
  running, transmitted plus queued actions are exactly the submitted ones); any two
  consecutive transmissions are at least \<open>cd_time\<close> apart (from the return of one to the
  call of the next, and from call to call); and \<open>_pre_send_time\<close> is the time at which the
  last transmission returned. The loop does transmit: it keeps running as long as
  \<open>conn.send\<close> does not raise; each further round in which \<open>conn.send\<close> succeeds transmits
  the action at the head of the queue and nothing else; and as many such rounds as there
  are queued actions leave the queue empty, with all submitted actions transmitted in the
  order of submission.
\<close>

theorem sender_fifo_and_spacing:
  assumes "ready_signal c" "conn_ready c" "\<not> slack c"
    and "\<forall>e\<in>set es. timely e"
    and "sent (effects c) = []"
    and "run_sched es (True, c) = (alive, c')"
  shows "prefix (map fst (sent (effects c'))) (send_queue c @ submitted es)
     \<and> (alive \<longrightarrow> map fst (sent (effects c')) @ send_queue c' = send_queue c @ submitted es)
     \<and> (\<forall>i. Suc i < length (sent (effects c')) \<longrightarrow>
           cd_time c \<le> fst (snd (sent (effects c') ! Suc i)) - snd (snd (sent (effects c') ! i))
           \<and> cd_time c \<le> fst (snd (sent (effects c') ! Suc i)) - fst (snd (sent (effects c') ! i)))
     \<and> (sent (effects c') \<noteq> [] \<longrightarrow> pre_send_time c' = snd (snd (last (sent (effects c')))))
     \<and> ((\<forall>e\<in>set es. succeeds e) \<longrightarrow> alive)
     \<and> (\<forall>(env :: send_env) action q. alive \<and> send_queue c' = action # q \<and> send_ok env \<longrightarrow>
           (\<exists>c'' t1. run_sched [Round env] (True, c') = (True, c'')
              \<and> sent (effects c'') = sent (effects c') @ [(action, t1, t1 + send_time env)]
              \<and> send_queue c'' = q))
     \<and> (\<forall>envs :: send_env list. alive \<and> length envs = length (send_queue c') \<and> (\<forall>env\<in>set envs. send_ok env) \<longrightarrow>
           (\<exists>c''. run_sched (map Round envs) (True, c') = (True, c'')
              \<and> map fst (sent (effects c'')) = send_queue c @ submitted es
              \<and> send_queue c'' = []))"
proof -
  from assms(5) have st: "steady c"
    by (simp add: steady_def spaced_def)
  from run_sched_fifo [OF assms(1-4) st assms(6)] assms(5)
  have f: "prefix (map fst (sent (effects c'))) (send_queue c @ submitted es)"
    "alive \<longrightarrow> map fst (sent (effects c')) @ send_queue c' = send_queue c @ submitted es"
    and st': "steady c'" and cd: "cd_time c' = cd_time c"
    by simp_all
  from run_sched_flags [OF assms(6)] assms(1,2) have fl: "ready_signal c'" "conn_ready c'"
    by simp_all
  from st' cd have 3: "\<forall>i. Suc i < length (sent (effects c')) \<longrightarrow>
           cd_time c \<le> fst (snd (sent (effects c') ! Suc i)) - snd (snd (sent (effects c') ! i))
           \<and> cd_time c \<le> fst (snd (sent (effects c') ! Suc i)) - fst (snd (sent (effects c') ! i))"
    by (simp add: steady_def spaced_def)
  from st' have 4: "sent (effects c') \<noteq> [] \<longrightarrow>
      pre_send_time c' = snd (snd (last (sent (effects c'))))"
    by (simp add: steady_def)
  have 5: "(\<forall>e\<in>set es. succeeds e) \<longrightarrow> alive"
    using run_sched_alive [OF _ assms(6)] by blast
  have 6: "\<forall>(env :: send_env) action q. alive \<and> send_queue c' = action # q \<and> send_ok env \<longrightarrow>
           (\<exists>c'' t1. run_sched [Round env] (True, c') = (True, c'')
              \<and> sent (effects c'') = sent (effects c') @ [(action, t1, t1 + send_time env)]
              \<and> send_queue c'' = q)"
  proof (intro allI impI)
    fix env :: send_env and action q
    assume h: "alive \<and> send_queue c' = action # q \<and> send_ok env"
    from round_transmits [OF fl, of action q env] h obtain c'' t1 where
      "watch_round env c' = Some (None, c'')"
      "sent (effects c'') = sent (effects c') @ [(action, t1, t1 + send_time env)]"
      "send_queue c'' = q"
      by blast
    then show "\<exists>c'' t1. run_sched [Round env] (True, c') = (True, c'')
              \<and> sent (effects c'') = sent (effects c') @ [(action, t1, t1 + send_time env)]
              \<and> send_queue c'' = q"
      by simp
  qed
  have 7: "\<forall>envs :: send_env list. alive \<and> length envs = length (send_queue c') \<and> (\<forall>env\<in>set envs. send_ok env) \<longrightarrow>
           (\<exists>c''. run_sched (map Round envs) (True, c') = (True, c'')
              \<and> map fst (sent (effects c'')) = send_queue c @ submitted es
              \<and> send_queue c'' = [])"
  proof (intro allI impI)
    fix envs :: "send_env list"
    assume h: "alive \<and> length envs = length (send_queue c') \<and> (\<forall>env\<in>set envs. send_ok env)"
    then have len: "length envs = length (send_queue c')" and ok: "\<forall>env\<in>set envs. send_ok env"
      by simp_all
    from run_sched_drain [OF fl len ok] obtain c'' where
      "run_sched (map Round envs) (True, c') = (True, c'')"
      "map fst (sent (effects c'')) = map fst (sent (effects c')) @ send_queue c'"
      "send_queue c'' = []"
      by blast
    with f(2) h show "\<exists>c''. run_sched (map Round envs) (True, c') = (True, c'')
              \<and> map fst (sent (effects c'')) = send_queue c @ submitted es
              \<and> send_queue c'' = []"
      by simp
  qed
  from f 3 4 5 6 7 show ?thesis
    by (intro conjI)
qed

theorem sender_fifo_and_spacing_witness:
  "sent (effects (snd (run_sched example_sched (True, conn_connected))))
     = [(1, 101, 10101 / 100), (2, 10121 / 100, 5061 / 50)]
   \<and> prefix [1, 2] (send_queue conn_connected @ submitted example_sched)
   \<and> [1, 2] @ send_queue (snd (run_sched example_sched (True, conn_connected)))
       = send_queue conn_connected @ submitted example_sched
   \<and> cd_time conn_connected \<le> 10121 / 100 - 10101 / 100
   \<and> pre_send_time (snd (run_sched example_sched (True, conn_connected))) = 5061 / 50
   \<and> fst (run_sched example_sched (True, conn_connected))
   \<and> send_queue (snd (run_sched example_sched (True, conn_connected))) = [3]
   \<and> (\<exists>c'' t1. run_sched [Round fast_hook] (True, snd (run_sched example_sched (True, conn_connected)))
          = (True, c'')
        \<and> sent (effects c'') = [(1, 101, 10101 / 100), (2, 10121 / 100, 5061 / 50), (3, t1, t1 + 1 / 100)]
        \<and> send_queue c'' = [])
   \<and> (\<exists>c''. run_sched (map Round [slow_hook]) (True, snd (run_sched example_sched (True, conn_connected)))
          = (True, c'')
        \<and> map fst (sent (effects c'')) = [1, 2, 3] \<and> send_queue c'' = [])"
proof -
  let ?c' = "snd (run_sched example_sched (True, conn_connected))"
  have c: "ready_signal conn_connected" "conn_ready conn_connected" "\<not> slack conn_connected"
    "sent (effects conn_connected) = []"
    by (simp_all add: conn_connected_def ForwardWsConn_def effect_def)
  have t: "\<forall>e\<in>set example_sched. timely e"
    by (simp add: example_sched_def slow_hook_def fast_hook_def)
  have s: "\<forall>e\<in>set example_sched. succeeds e"
    by (simp add: example_sched_def slow_hook_def fast_hook_def)
  have q0: "send_queue conn_connected @ submitted example_sched = [1, 2, 3]"
    by (simp add: example_sched_def conn_connected_def ForwardWsConn_def effect_def)
  obtain alive where r: "run_sched example_sched (True, conn_connected) = (alive, ?c')"
    by (cases "run_sched example_sched (True, conn_connected)") simp
  note th = sender_fifo_and_spacing [OF c(1-3) t c(4) r]
  from th s have a: "alive"
    by blast
  from th have 1: "prefix (map fst (sent (effects ?c'))) (send_queue conn_connected @ submitted example_sched)"
    by blast
  from th a have 2: "map fst (sent (effects ?c')) @ send_queue ?c'
      = send_queue conn_connected @ submitted example_sched"
    by blast
  from th have "\<forall>i. Suc i < length (sent (effects ?c')) \<longrightarrow>
           cd_time conn_connected \<le> fst (snd (sent (effects ?c') ! Suc i)) - snd (snd (sent (effects ?c') ! i))
           \<and> cd_time conn_connected \<le> fst (snd (sent (effects ?c') ! Suc i)) - fst (snd (sent (effects ?c') ! i))"
    by blast
  from this [rule_format, of 0] have 3: "cd_time conn_connected \<le> 10121 / 100 - 10101 / 100"
    by (simp add: example_sched_run(2))
  have h6: "alive \<and> send_queue ?c' = 3 # [] \<and> send_ok fast_hook"
    using a by (simp add: example_sched_run(3) fast_hook_def)
  from th have "\<forall>(env :: send_env) action q. alive \<and> send_queue ?c' = action # q \<and> send_ok env \<longrightarrow>
           (\<exists>c'' t1. run_sched [Round env] (True, ?c') = (True, c'')
              \<and> sent (effects c'') = sent (effects ?c') @ [(action, t1, t1 + send_time env)]
              \<and> send_queue c'' = q)"
    by blast
  from this [rule_format, OF h6]
  have 6: "\<exists>c'' t1. run_sched [Round fast_hook] (True, ?c') = (True, c'')
        \<and> sent (effects c'') = [(1, 101, 10101 / 100), (2, 10121 / 100, 5061 / 50), (3, t1, t1 + 1 / 100)]
        \<and> send_queue c'' = []"
    by (simp add: example_sched_run(2) fast_hook_def)
  have h7: "alive \<and> length [slow_hook] = length (send_queue ?c') \<and> (\<forall>env\<in>set [slow_hook]. send_ok env)"
    using a by (simp add: example_sched_run(3) slow_hook_def)
  from th have "\<forall>envs :: send_env list. alive \<and> length envs = length (send_queue ?c') \<and> (\<forall>env\<in>set envs. send_ok env) \<longrightarrow>
           (\<exists>c''. run_sched (map Round envs) (True, ?c') = (True, c'')
              \<and> map fst (sent (effects c'')) = send_queue conn_connected @ submitted example_sched
              \<and> send_queue c'' = [])"
    by blast
  from this [rule_format, OF h7]
  have 7: "\<exists>c''. run_sched (map Round [slow_hook]) (True, ?c') = (True, c'')
        \<and> map fst (sent (effects c'')) = [1, 2, 3] \<and> send_queue c'' = []"
    unfolding q0 .
  have 5: "fst (run_sched example_sched (True, conn_connected))"
    by (simp add: example_sched_run(1))
  from 1 2 3 have "sent (effects ?c') = [(1, 101, 10101 / 100), (2, 10121 / 100, 5061 / 50)]
   \<and> prefix [1, 2] (send_queue conn_connected @ submitted example_sched)
   \<and> [1, 2] @ send_queue ?c' = send_queue conn_connected @ submitted example_sched
   \<and> cd_time conn_connected \<le> 10121 / 100 - 10101 / 100
   \<and> pre_send_time ?c' = 5061 / 50"
    by (simp add: example_sched_run)
  with 5 6 7 example_sched_run(3) show ?thesis
    by (intro conjI) simp_all
qed

text \<open>
  C3: in every round of the sender loop that takes an action from the queue, the presend
  hook is emitted and awaited first; the cooldown remainder
  \<open>cd_time - (now - _pre_send_time)\<close> is computed with the clock as it is after the hook
  and slept next; only then the action is sent (or the send fails and the loop ends). So
  the time from \<open>_pre_send_time\<close> to the transmission is the larger of \<open>cd_time\<close> and the
  time elapsed including the hook (plus the lateness of the sleep): the hook's time counts
  toward the gap, and a hook slower than \<open>cd_time\<close> makes the gap longer than \<open>cd_time\<close>.
\<close>

theorem presend_hook_before_cooldown:
  assumes "ready_signal c" "conn_ready c" "send_queue c = action # q"
    and w: "w = cd_time c - (now c + hook_time env - pre_send_time c)"
    and t1: "t1 = now c + hook_time env + max w 0 + sleep_extra env"
  shows "\<exists>x c' pre post. watch_round env c = Some (x, c')
     \<and> effects c' = effects c @ pre
          @ [Emit (ACTION_PRESEND action), Log DEBUG (Presend_done action),
             Log DEBUG (Cooldown_wait action w), Sleep w] @ post
     \<and> (\<forall>e\<in>set pre. \<exists>m. e = Log DEBUG m)
     \<and> (if send_ok env
         then x = None
           \<and> post = [Conn_send action t1 (t1 + send_time env), Log DEBUG (Sent action)]
           \<and> pre_send_time c' = t1 + send_time env
         else x = Some Exit_closed
           \<and> post = [Log ERROR Watch_closed]
           \<and> pre_send_time c' = pre_send_time c)
     \<and> t1 - pre_send_time c
          = max (now c - pre_send_time c + hook_time env) (cd_time c) + sleep_extra env
     \<and> (pre_send_time c \<le> now c \<and> 0 \<le> sleep_extra env \<longrightarrow> hook_time env \<le> t1 - pre_send_time c)"
proof -
  let ?pre = "if logger_level c = DEBUG then [Log DEBUG (Presend_struct action)] else []"
  let ?mid = "[Emit (ACTION_PRESEND action), Log DEBUG (Presend_done action),
             Log DEBUG (Cooldown_wait action w), Sleep w]"
  have 3: "\<forall>e\<in>set ?pre. \<exists>m. e = Log DEBUG m"
    by simp
  have 5: "t1 - pre_send_time c
          = max (now c - pre_send_time c + hook_time env) (cd_time c) + sleep_extra env"
    unfolding t1 w by (simp add: max_def)
  have 6: "pre_send_time c \<le> now c \<and> 0 \<le> sleep_extra env \<longrightarrow> hook_time env \<le> t1 - pre_send_time c"
    unfolding 5 by (simp add: max_def)
  show ?thesis
  proof (cases "send_ok env")
    case True
    let ?t2 = "t1 + send_time env"
    let ?post = "[Conn_send action t1 ?t2, Log DEBUG (Sent action)]"
    let ?c' = "c\<lparr>send_queue := q, now := ?t2, pre_send_time := ?t2,
      effects := effects c @ ?pre
        @ [Emit (ACTION_PRESEND action), Log DEBUG (Presend_done action),
           Log DEBUG (Cooldown_wait action w), Sleep w,
           Conn_send action t1 ?t2, Log DEBUG (Sent action)]\<rparr>"
    have 1: "watch_round env c = Some (None, ?c')"
      by (rule watch_round_ok [OF assms(1-3) True w t1 refl])
    have 2: "effects ?c' = effects c @ ?pre @ ?mid @ ?post"
      by simp
    from True have 4: "if send_ok env
         then None = (None :: exit option) \<and> ?post = ?post \<and> pre_send_time ?c' = t1 + send_time env
         else None = Some Exit_closed \<and> ?post = [Log ERROR Watch_closed]
           \<and> pre_send_time ?c' = pre_send_time c"
      by simp
    from 1 2 3 4 5 6 show ?thesis
      by blast
  next
    case False
    let ?post = "[Log ERROR Watch_closed] :: ('a, 'b) effect list"
    let ?c' = "c\<lparr>send_queue := q,
      now := now c + hook_time env + max w 0 + sleep_extra env,
      effects := effects c @ ?pre
        @ [Emit (ACTION_PRESEND action), Log DEBUG (Presend_done action),
           Log DEBUG (Cooldown_wait action w), Sleep w, Log ERROR Watch_closed]\<rparr>"
    have 1: "watch_round env c = Some (Some Exit_closed, ?c')"
      by (rule watch_round_closed [OF assms(1-3) False w])
    have 2: "effects ?c' = effects c @ ?pre @ ?mid @ ?post"
      by simp
    from False have 4: "if send_ok env
         then Some Exit_closed = None
           \<and> ?post = [Conn_send action t1 (t1 + send_time env), Log DEBUG (Sent action)]
           \<and> pre_send_time ?c' = t1 + send_time env
         else Some Exit_closed = Some Exit_closed \<and> ?post = ?post
           \<and> pre_send_time ?c' = pre_send_time c"
      by simp
    from 1 2 3 4 5 6 show ?thesis
      by blast
  qed
qed

theorem presend_hook_before_cooldown_witness:
  "\<exists>c' pre. watch_round slow_hook (conn_connected\<lparr>send_queue := [7]\<rparr>) = Some (None, c')
     \<and> effects c' = effects conn_connected @ pre
          @ [Emit (ACTION_PRESEND 7), Log DEBUG (Presend_done 7),
             Log DEBUG (Cooldown_wait 7 (- (4 / 5))), Sleep (- (4 / 5)),
             Conn_send 7 101 (10101 / 100), Log DEBUG (Sent 7)]
     \<and> pre_send_time c' = 10101 / 100
     \<and> cd_time conn_connected < 101 - pre_send_time conn_connected"
proof -
  let ?c = "conn_connected\<lparr>send_queue := [7]\<rparr>"
  have c: "ready_signal ?c" "conn_ready ?c" "send_queue ?c = 7 # []"
    and v: "cd_time ?c = 1 / 5" "now ?c = 100" "pre_send_time ?c = 100" "hook_time slow_hook = 1"
      "sleep_extra slow_hook = 0" "send_time slow_hook = 1 / 100" "effects ?c = effects conn_connected"
      "cd_time conn_connected = 1 / 5" "pre_send_time conn_connected = 100" "send_ok slow_hook"
    by (simp_all add: conn_connected_def ForwardWsConn_def effect_def slow_hook_def)
  have w: "- (4 / 5) = cd_time ?c - (now ?c + hook_time slow_hook - pre_send_time ?c)"
    by (simp add: v)
  have t1: "101 = now ?c + hook_time slow_hook + max (- (4 / 5)) 0 + sleep_extra slow_hook"
    by (simp add: v)
  from presend_hook_before_cooldown [OF c w t1] obtain x c' pre post where
    r: "watch_round slow_hook ?c = Some (x, c')"
    "effects c' = effects ?c @ pre
          @ [Emit (ACTION_PRESEND 7), Log DEBUG (Presend_done 7),
             Log DEBUG (Cooldown_wait 7 (- (4 / 5))), Sleep (- (4 / 5))] @ post"
    and i: "if send_ok slow_hook
         then x = None
           \<and> post = [Conn_send 7 101 (101 + send_time slow_hook), Log DEBUG (Sent 7)]
           \<and> pre_send_time c' = 101 + send_time slow_hook
         else x = Some Exit_closed
           \<and> post = [Log ERROR Watch_closed]
           \<and> pre_send_time c' = pre_send_time ?c"
    by blast
  from i v(10) have "x = None" "post = [Conn_send 7 101 (101 + send_time slow_hook), Log DEBUG (Sent 7)]"
    "pre_send_time c' = 101 + send_time slow_hook"
    by simp_all
  with r have "watch_round slow_hook ?c = Some (None, c')
     \<and> effects c' = effects conn_connected @ pre
          @ [Emit (ACTION_PRESEND 7), Log DEBUG (Presend_done 7),
             Log DEBUG (Cooldown_wait 7 (- (4 / 5))), Sleep (- (4 / 5)),
             Conn_send 7 101 (10101 / 100), Log DEBUG (Sent 7)]
     \<and> pre_send_time c' = 10101 / 100
     \<and> cd_time conn_connected < 101 - pre_send_time conn_connected"
    by (simp add: v)
  then show ?thesis
    by blast
qed

subsection \<open>ForwardWsConn: after a terminal close\<close>

lemma quiet_fields:
  assumes "terminal c" "client_close c' = client_close c" "allow_reconn c' = allow_reconn c"
    "count_list (effects c') Task_run = count_list (effects c) Task_run"
    "count_list (effects c') Connect = count_list (effects c) Connect"
  shows "quiet c c'"
  using assms by (simp add: quiet_def terminal_def)

lemma send_quiet:
  assumes "terminal c"
  shows "quiet c (case send action c of None \<Rightarrow> c | Some c' \<Rightarrow> c')"
  using assms
  by (intro quiet_fields)
    (auto simp: send_def effect_def count_list_append split: option.splits if_splits)

lemma watch_round_quiet:
  assumes "terminal c"
  shows "quiet c (case watch_round env c of None \<Rightarrow> c | Some (x, c') \<Rightarrow> c')"
proof (cases "watch_round env c")
  case None
  with assms show ?thesis by (simp add: quiet_refl)
next
  case (Some r)
  obtain x c' where r: "r = (x, c')"
    by (cases r)
  from Some r obtain action q where q: "ready_signal c" "conn_ready c" "send_queue c = action # q"
    by (auto simp: watch_round_def split: if_splits list.splits)
  have "quiet c c'"
  proof (cases "send_ok env")
    case True
    from watch_round_ok [OF q True refl refl refl] Some r assms show ?thesis
      by (intro quiet_fields) (auto simp: count_list_append)
  next
    case False
    from watch_round_closed [OF q False refl] Some r assms show ?thesis
      by (intro quiet_fields) (auto simp: count_list_append)
  qed
  with Some r show ?thesis by simp
qed

lemma do_steps_quiet:
  assumes "terminal c"
  shows "\<exists>c'. do_steps ss c = Inr c' \<and> quiet c c'"
  using assms
proof (induction ss arbitrary: c)
  case Nil
  then show ?case by (simp add: quiet_refl)
next
  case (Cons s ss)
  have "\<exists>c1. do_step s c = Inr c1 \<and> quiet c c1"
  proof (cases s)
    case Do_close
    with Cons.prems show ?thesis
      by (simp add: terminal_close quiet_refl)
  next
    case (Do_listen_exit ex)
    with listen_exit_quiet [OF Cons.prems, of ex] show ?thesis
      by simp
  next
    case (Do_send action)
    with send_quiet [OF Cons.prems, of action] show ?thesis
      by simp
  next
    case (Do_round env)
    with watch_round_quiet [OF Cons.prems, of env] show ?thesis
      by simp
  qed
  then obtain c1 where s: "do_step s c = Inr c1" "quiet c c1"
    by blast
  then have "terminal c1" by (simp add: quiet_def)
  from Cons.IH [OF this] obtain c' where "do_steps ss c1 = Inr c'" "quiet c1 c'"
    by blast
  with s show ?case
    by (auto intro: quiet_trans)
qed

text \<open>
  C4 (amended): when \<open>_close\<close> runs on a pending close future, it completes the future and
  forces the reconnect flag to false. From then on the \<open>finally\<close> block of the receive loop
  returns at once; leaving the loop adds one debug record and nothing else; a whole run of
  \<open>_listen\<close> that ends, and any sequence of further closes, loop exits, submissions and
  sender rounds, start no \<open>_run\<close> task and no connect attempt and leave the request in
  place. A retry loop of \<open>_run\<close> that is already under way is not covered.
\<close>

theorem terminal_close_no_reconnect:
  assumes "client_close c = Some Pending"
  shows "\<exists>c1. close c = Inr c1 \<and> client_close c1 = Some Finished \<and> \<not> allow_reconn c1
     \<and> listen_finally c1 = Inr c1
     \<and> (\<forall>ex. listen_exit ex c1 =
           Inr (effect [Log DEBUG (case ex of Exit_cancelled \<Rightarrow> Listen_stopped
                                   | Exit_closed \<Rightarrow> Listen_closed)] c1))
     \<and> (\<forall>build is_resp_event rs r. listen build is_resp_event rs c1 = Some r
           \<longrightarrow> (\<exists>c2. r = Inr c2 \<and> quiet c1 c2))
     \<and> (\<forall>ss. \<exists>c2. do_steps ss c1 = Inr c2 \<and> quiet c1 c2)"
proof -
  let ?c1 = "c\<lparr>allow_reconn := False, client_close := Some Finished\<rparr>"
  have t: "terminal ?c1"
    by (simp add: terminal_def future_done_def)
  have "close c = Inr ?c1"
    by (rule close_pending [OF assms])
  moreover have "client_close ?c1 = Some Finished"
    by simp
  moreover have "\<not> allow_reconn ?c1"
    by simp
  moreover have "listen_finally ?c1 = Inr ?c1"
    by (rule terminal_listen_finally [OF t])
  moreover have "\<forall>ex. listen_exit ex ?c1 =
           Inr (effect [Log DEBUG (case ex of Exit_cancelled \<Rightarrow> Listen_stopped
                                   | Exit_closed \<Rightarrow> Listen_closed)] ?c1)"
    by (intro allI terminal_listen_exit [OF t])
  moreover have "\<forall>build is_resp_event rs r. listen build is_resp_event rs ?c1 = Some r
           \<longrightarrow> (\<exists>c2. r = Inr c2 \<and> quiet ?c1 c2)"
    by (intro allI impI listen_quiet [OF t])
  moreover have "\<forall>ss. \<exists>c2. do_steps ss ?c1 = Inr c2 \<and> quiet ?c1 c2"
    by (intro allI do_steps_quiet [OF t])
  ultimately show ?thesis
    by (intro exI [of _ ?c1] conjI)
qed


theorem terminal_close_no_reconnect_witness:
  "client_close conn_connected = Some Pending
   \<and> (\<exists>c1. close conn_connected = Inr c1 \<and> client_close c1 = Some Finished \<and> \<not> allow_reconn c1
         \<and> listen_finally c1 = Inr c1
         \<and> listen_exit Exit_closed c1 = Inr (effect [Log DEBUG Listen_closed] c1)
         \<and> (\<exists>c2. do_steps [Do_listen_exit Exit_closed, Do_close, Do_send 5, Do_round slow_hook] c1 = Inr c2 \<and> quiet c1 c2))"
proof -
  have p: "client_close conn_connected = Some Pending"
    by (simp add: conn_connected_def effect_def)
  from terminal_close_no_reconnect [OF p] obtain c1 where
    c1: "close conn_connected = Inr c1" "client_close c1 = Some Finished" "\<not> allow_reconn c1"
      "listen_finally c1 = Inr c1"
    and ex: "\<forall>ex. listen_exit ex c1 =
           Inr (effect [Log DEBUG (case ex of Exit_cancelled \<Rightarrow> Listen_stopped
                                   | Exit_closed \<Rightarrow> Listen_closed)] c1)"
    and st: "\<forall>ss. \<exists>c2. do_steps ss c1 = Inr c2 \<and> quiet c1 c2"
    by blast
  from ex have "listen_exit Exit_closed c1 = Inr (effect [Log DEBUG Listen_closed] c1)"
    by simp
  moreover from st have "\<exists>c2. do_steps [Do_listen_exit Exit_closed, Do_close, Do_send 5, Do_round slow_hook] c1 = Inr c2 \<and> quiet c1 c2"
    by blast
  ultimately show ?thesis
    using p c1 by blast
qed

text \<open>
  C4 as stated fails: \<open>_run\<close> creates the close future before its retry loop, and the loop
  never looks at it. With \<open>max_retry = 2\<close> and an endpoint that never opens, \<open>_close\<close> called
  while \<open>_run\<close> sleeps after its first failed attempt completes the future and clears the
  reconnect flag, and the loop then makes its two remaining connect attempts.
\<close>

theorem connect_attempts_after_close:
  "connect_loop 4 never_opens (Range 0 3)
       ((ForwardWsConn 2 4 (1 / 5) True INFO False True 100)\<lparr>client_close := Some Pending\<rparr>)
     = connect_loop 3 never_opens (Range 1 3) conn_retrying
   \<and> client_close conn_retrying = Some Pending
   \<and> close conn_retrying = Inr conn_closed
   \<and> client_close conn_closed = Some Finished
   \<and> \<not> allow_reconn conn_closed
   \<and> count_list (effects conn_closed) Connect = 1
   \<and> connect_loop 3 never_opens (Range 1 3) conn_closed = Some (False, (fail_once ^^ 2) conn_closed)
   \<and> count_list (effects ((fail_once ^^ 2) conn_closed)) Connect = 3"
proof -
  let ?c0 = "(ForwardWsConn 2 4 (1 / 5) True INFO False True 100 :: (nat, nat) ws_conn)\<lparr>client_close := Some Pending\<rparr>"
  have 1: "connect_loop 4 never_opens (Range 0 3) ?c0
     = connect_loop 3 never_opens (Range 1 3) conn_retrying"
    using connect_loop_fail(1) [of 3 never_opens 0 3 ?c0]
    by (simp add: never_opens_def conn_retrying_def)
  have 2: "client_close conn_retrying = Some Pending"
    by (simp add: conn_retrying_def)
  have 3: "close conn_retrying = Inr conn_closed"
    unfolding conn_closed_def by (rule close_pending [OF 2])
  have 4: "client_close conn_closed = Some Finished" "\<not> allow_reconn conn_closed"
    by (simp_all add: conn_closed_def)
  have e: "effects conn_closed = [Connect, Log WARNING (Retry_warning 4), Sleep 4]"
    by (simp add: conn_closed_def conn_retrying_def ForwardWsConn_def)
  then have 5: "count_list (effects conn_closed) Connect = 1"
    by simp
  have "\<forall>i. 1 \<le> i \<and> i < 1 + int 2 \<longrightarrow> \<not> never_opens i"
    by (simp add: never_opens_def)
  from connect_loop_range_fails [OF this, of 3 1 conn_closed]
  have "connect_loop 3 never_opens (Range 1 3) conn_closed
      = connect_loop 1 never_opens (Range 3 3) ((fail_once ^^ 2) conn_closed)"
    by simp
  then have 6: "connect_loop 3 never_opens (Range 1 3) conn_closed = Some (False, (fail_once ^^ 2) conn_closed)"
    by simp
  have "count_list (effects ((fail_once ^^ 2) conn_closed)) Connect
      = count_list (effects conn_closed) Connect + 2"
    by (simp only: funpow_fail_once_effects count_list_append count_connect_failures)
  with 5 have 7: "count_list (effects ((fail_once ^^ 2) conn_closed)) Connect = 3"
    by simp
  from 1 2 3 4 5 6 7 show ?thesis
    by (intro conjI)
qed

subsection \<open>cooldown\<close>






end
